theory Spec2Isabelle
  imports Main
begin

section \<open>The store: tables of initDatabase\<close>

text \<open>
  The three tables created by \<open>initDatabase\<close> (index.js part of server.js). Timestamps are
  milliseconds since the epoch, INTEGER columns are \<open>int\<close> (NULL is not modelled there),
  strings are lists of code units below 256, \<open>user_agent\<close> is nullable. The SERIAL ids of key_activations and key_logs are never read
  by the handlers and are left out; \<open>keys_id_seq\<close> is the sequence behind \<open>keys.id\<close>.
\<close>

record key_row =
  id_col :: nat
  key_string :: string
  duration_hours :: int
  max_devices :: int
  used_devices :: int
  created_at :: int
  expires_at :: int
  status :: string

record activation_row =
  act_key_id :: nat
  act_device_id :: string
  act_ip_address :: string
  act_created_at :: int

record log_row =
  log_key_id :: nat
  log_action :: string
  log_ip_address :: string
  log_user_agent :: "string option"
  log_created_at :: int

record db =
  keys :: "key_row list"
  key_activations :: "activation_row list"
  key_logs :: "log_row list"
  keys_id_seq :: nat

definition init_db :: db where
  "init_db = \<lparr>keys = [], key_activations = [], key_logs = [], keys_id_seq = 1\<rparr>"

section \<open>Store errors and the environment\<close>

text \<open>
  An error thrown by \<open>pool.query\<close> / \<open>client.query\<close>, with its SQLSTATE \<open>code\<close>. Constraint
  violations are decided by the tables; every other failure (connection lost, timeout,
  bad parameter) is chosen by the environment: \<open>flt s = Some e\<close> makes the query at site
  \<open>s\<close> of the running handler throw \<open>e\<close> without touching the tables.
\<close>

datatype pg_error = PgError (code: string)

datatype site =
    SelKey | UpdExpired | LogIns | SelActivation | CountAct
  | Connect | Begin | InsAct | UpdUsed | Commit | Rollback
  | InsKey nat | UpdKey | DelLogs | DelActs | DelKey | DelExpired | Sweep

type_synonym faults = "site \<Rightarrow> pg_error option"

definition no_faults :: faults where
  "no_faults = (\<lambda>s. None)"

section \<open>Requests and responses\<close>

record request =
  key :: "string option"
  device_id :: "string option"
  ip :: string
  user_agent_hdr :: "string option"

datatype json =
    JBool bool | JInt int | JStr string | JDate int
  | JKey key_row | JKeys "key_row list"

record response =
  http_status :: nat
  body :: "(string \<times> json) list"

definition json_reply :: "nat \<Rightarrow> (string \<times> json) list \<Rightarrow> response" where
  "json_reply c b = \<lparr>http_status = c, body = b\<rparr>"

definition fail_reply :: "nat \<Rightarrow> string \<Rightarrow> response" where
  "fail_reply c msg = json_reply c [(''success'', JBool False), (''error'', JStr msg)]"

text \<open>The replies of POST /activateKey, named after the spec's outcomes.\<close>

definition InvalidInput_missing :: response where
  "InvalidInput_missing = fail_reply 400 ''Key and device_id are required''"

definition InvalidInput_device :: response where
  "InvalidInput_device = fail_reply 400 ''Invalid device_id format''"

definition KeyNotFound :: response where
  "KeyNotFound = fail_reply 404 ''Key not found''"

definition KeyExpired :: response where
  "KeyExpired = fail_reply 400 ''Key has expired''"

definition KeyNotActive :: response where
  "KeyNotActive = fail_reply 400 ''Key is not active''"

definition DeviceLimitReached :: response where
  "DeviceLimitReached = fail_reply 400 ''Key has reached maximum device limit''"

definition DeviceConflict :: response where
  "DeviceConflict = fail_reply 409 ''Device already activated with this key''"

definition InternalError :: response where
  "InternalError = fail_reply 500 ''Internal server error''"

definition AlreadyActivated :: "key_row \<Rightarrow> response" where
  "AlreadyActivated keyData = json_reply 200
     [(''success'', JBool True), (''expires_at'', JDate (expires_at keyData)),
      (''duration_hours'', JInt (duration_hours keyData)),
      (''message'', JStr ''Device already activated'')]"

definition Activated :: "key_row \<Rightarrow> int \<Rightarrow> response" where
  "Activated keyData currentDevices = json_reply 200
     [(''success'', JBool True), (''expires_at'', JDate (expires_at keyData)),
      (''duration_hours'', JInt (duration_hours keyData)),
      (''devices_used'', JInt (currentDevices + 1)),
      (''max_devices'', JInt (max_devices keyData))]"

section \<open>String helpers of the handlers\<close>

text \<open>
  A JavaScript string is a sequence of UTF-16 code units; a \<open>string\<close> of this theory holds
  the code units U+0000 to U+00FF. \<open>String.prototype.trim\<close> removes the WhiteSpace and
  LineTerminator code units at both ends; below U+0100 these are U+0009 to U+000D, U+0020
  and U+00A0.
\<close>

definition is_space :: "char \<Rightarrow> bool" where
  "is_space c = (c \<in> set [CHR 0x09, CHR 0x0A, CHR 0x0B, CHR 0x0C, CHR 0x0D, CHR 0x20, CHR 0xA0])"

definition trim :: "string \<Rightarrow> string" where
  "trim s = rev (dropWhile is_space (rev (dropWhile is_space s)))"

text \<open>
  \<open>String.prototype.toUpperCase\<close> on the code units below U+0100. Some capitals lie outside
  that range (U+00B5 gives U+039C, U+00FF gives U+0178) and U+00DF gives the two letters
  \<open>SS\<close>, so the result is a list of code units, written as numbers. The SELECTs compare it
  with the code units of the stored \<open>key_string\<close>.
\<close>

definition units :: "string \<Rightarrow> nat list" where
  "units s = map of_char s"

definition upper_char :: "char \<Rightarrow> nat list" where
  "upper_char c =
     (let n = (of_char c :: nat) in
      if 97 \<le> n \<and> n \<le> 122 then [n - 32]
      else if n = 181 then [924]
      else if n = 223 then [83, 83]
      else if (224 \<le> n \<and> n \<le> 246) \<or> (248 \<le> n \<and> n \<le> 254) then [n - 32]
      else if n = 255 then [376]
      else [n])"

definition toUpperCase :: "string \<Rightarrow> nat list" where
  "toUpperCase s = concat (map upper_char s)"

text \<open>\<open>!x\<close> on an optional string field: undefined and the empty string are falsy.\<close>

fun falsy :: "string option \<Rightarrow> bool" where
  "falsy None = True"
| "falsy (Some s) = (s = [])"

section \<open>Queries\<close>

text \<open>\<open>SELECT * FROM keys WHERE key_string = $1\<close>, the parameter given by its code units.\<close>

definition select_key :: "nat list \<Rightarrow> db \<Rightarrow> key_row list" where
  "select_key s d = filter (\<lambda>k. units (key_string k) = s) (keys d)"

definition select_activation :: "nat \<Rightarrow> string \<Rightarrow> db \<Rightarrow> activation_row list" where
  "select_activation kid dev d =
     filter (\<lambda>a. act_key_id a = kid \<and> act_device_id a = dev) (key_activations d)"

definition count_activations :: "nat \<Rightarrow> db \<Rightarrow> int" where
  "count_activations kid d = int (length (filter (\<lambda>a. act_key_id a = kid) (key_activations d)))"

definition key_exists :: "nat \<Rightarrow> db \<Rightarrow> bool" where
  "key_exists kid d = (kid \<in> set (map id_col (keys d)))"

text \<open>\<open>UPDATE keys SET status = 'expired' WHERE id = $1\<close>\<close>

definition update_expired :: "nat \<Rightarrow> db \<Rightarrow> db" where
  "update_expired kid d =
     d\<lparr>keys := map (\<lambda>k. if id_col k = kid then k\<lparr>status := ''expired''\<rparr> else k) (keys d)\<rparr>"

text \<open>\<open>UPDATE keys SET used_devices = used_devices + 1 WHERE id = $1\<close>\<close>

definition update_used :: "nat \<Rightarrow> db \<Rightarrow> db" where
  "update_used kid d =
     d\<lparr>keys := map (\<lambda>k. if id_col k = kid then k\<lparr>used_devices := used_devices k + 1\<rparr> else k)
                   (keys d)\<rparr>"

text \<open>
  \<open>INSERT INTO key_activations (key_id, device_id, ip_address)\<close>: the foreign key gives
  23503 when the key row is gone, UNIQUE (key_id, device_id) gives 23505.
\<close>

definition insert_activation :: "int \<Rightarrow> nat \<Rightarrow> string \<Rightarrow> string \<Rightarrow> db \<Rightarrow> pg_error + db" where
  "insert_activation now kid dev addr d =
     (if \<not> key_exists kid d then Inl (PgError ''23503'')
      else if select_activation kid dev d \<noteq> [] then Inl (PgError ''23505'')
      else Inr (d\<lparr>key_activations := key_activations d @
                  [\<lparr>act_key_id = kid, act_device_id = dev, act_ip_address = addr,
                    act_created_at = now\<rparr>]\<rparr>))"

text \<open>
  \<open>logKeyActivity\<close>: one INSERT into key_logs inside try/catch; whatever it throws (an
  environment fault, or the foreign key when the key row is gone) is only printed.
\<close>

definition logKeyActivity :: "faults \<Rightarrow> int \<Rightarrow> nat \<Rightarrow> string \<Rightarrow> request \<Rightarrow> db \<Rightarrow> db" where
  "logKeyActivity flt now keyId action req d =
     (case flt LogIns of
        Some e \<Rightarrow> d
      | None \<Rightarrow>
          if \<not> key_exists keyId d then d
          else d\<lparr>key_logs := key_logs d @
                 [\<lparr>log_key_id = keyId, log_action = action, log_ip_address = ip req,
                   log_user_agent = Some (case user_agent_hdr req of None \<Rightarrow> ''unknown''
                                           | Some u \<Rightarrow> if u = [] then ''unknown'' else u),
                   log_created_at = now\<rparr>]\<rparr>)"

section \<open>POST /activateKey\<close>

text \<open>The handler's outer catch: 23505 becomes 409, everything else 500.\<close>

definition activate_catch :: "pg_error \<Rightarrow> response" where
  "activate_catch err = (if code err = ''23505'' then DeviceConflict else InternalError)"

text \<open>
  The transaction of the handler: BEGIN, INSERT, UPDATE, COMMIT on one client. A throw
  anywhere runs ROLLBACK (which may throw itself) and rethrows, so the tables are
  either both written or untouched.
\<close>

definition rollback_rethrow :: "faults \<Rightarrow> pg_error \<Rightarrow> pg_error" where
  "rollback_rethrow flt txErr = (case flt Rollback of Some e \<Rightarrow> e | None \<Rightarrow> txErr)"

definition activation_tx :: "faults \<Rightarrow> int \<Rightarrow> nat \<Rightarrow> string \<Rightarrow> string \<Rightarrow> db \<Rightarrow> pg_error + db" where
  "activation_tx flt now kid dev addr d =
     (case flt Begin of
        Some e \<Rightarrow> Inl (rollback_rethrow flt e)
      | None \<Rightarrow>
     (case flt InsAct of
        Some e \<Rightarrow> Inl (rollback_rethrow flt e)
      | None \<Rightarrow>
     (case insert_activation now kid dev addr d of
        Inl e \<Rightarrow> Inl (rollback_rethrow flt e)
      | Inr d1 \<Rightarrow>
     (case flt UpdUsed of
        Some e \<Rightarrow> Inl (rollback_rethrow flt e)
      | None \<Rightarrow>
     (case flt Commit of
        Some e \<Rightarrow> Inl (rollback_rethrow flt e)
      | None \<Rightarrow> Inr (update_used kid d1))))))"

text \<open>
  The handler up to the device-limit check. \<open>Inl\<close> is a reply already sent, \<open>Inr\<close> the
  values (\<open>keyData\<close>, \<open>device_id\<close>, \<open>currentDevices\<close>) the rest of the handler goes on with.
\<close>

definition activateKey_checks ::
  "faults \<Rightarrow> int \<Rightarrow> request \<Rightarrow> db \<Rightarrow> (response + key_row \<times> string \<times> int) \<times> db" where
  "activateKey_checks flt now req d =
     (if falsy (key req) \<or> falsy (device_id req) then (Inl InvalidInput_missing, d)
      else case (key req, device_id req) of
        (Some k, Some dev) \<Rightarrow>
          if length dev < 5 \<or> length dev > 255 then (Inl InvalidInput_device, d)
          else (case flt SelKey of
            Some e \<Rightarrow> (Inl (activate_catch e), d)
          | None \<Rightarrow>
          (case select_key (toUpperCase (trim k)) d of
            [] \<Rightarrow> (Inl KeyNotFound, d)
          | keyData # rest \<Rightarrow>
              if now > expires_at keyData then
                (case flt UpdExpired of
                   Some e \<Rightarrow> (Inl (activate_catch e), d)
                 | None \<Rightarrow>
                     (Inl KeyExpired,
                      logKeyActivity flt now (id_col keyData) ''activation_expired'' req
                        (update_expired (id_col keyData) d)))
              else if status keyData \<noteq> ''active'' then (Inl KeyNotActive, d)
              else (case flt SelActivation of
                Some e \<Rightarrow> (Inl (activate_catch e), d)
              | None \<Rightarrow>
                  if select_activation (id_col keyData) dev d \<noteq> [] then
                    (Inl (AlreadyActivated keyData),
                     logKeyActivity flt now (id_col keyData) ''reactivated'' req d)
                  else (case flt CountAct of
                    Some e \<Rightarrow> (Inl (activate_catch e), d)
                  | None \<Rightarrow>
                      let currentDevices = count_activations (id_col keyData) d in
                      if currentDevices \<ge> max_devices keyData then (Inl DeviceLimitReached, d)
                      else (Inr (keyData, dev, currentDevices), d)))))
      | _ \<Rightarrow> (Inl InvalidInput_missing, d))"

text \<open>The rest of the handler: the transaction, the \<open>activated\<close> log entry, the reply.\<close>

definition activateKey_commit ::
  "faults \<Rightarrow> int \<Rightarrow> request \<Rightarrow> key_row \<Rightarrow> string \<Rightarrow> int \<Rightarrow> db \<Rightarrow> response \<times> db" where
  "activateKey_commit flt now req keyData dev currentDevices d =
     (case flt Connect of
        Some e \<Rightarrow> (activate_catch e, d)
      | None \<Rightarrow>
     (case activation_tx flt now (id_col keyData) dev (ip req) d of
        Inl e \<Rightarrow> (activate_catch e, d)
      | Inr d1 \<Rightarrow>
          (Activated keyData currentDevices,
           logKeyActivity flt now (id_col keyData) ''activated'' req d1)))"

definition activateKey :: "faults \<Rightarrow> int \<Rightarrow> request \<Rightarrow> db \<Rightarrow> response \<times> db" where
  "activateKey flt now req d =
     (case activateKey_checks flt now req d of
        (Inl r, d1) \<Rightarrow> (r, d1)
      | (Inr (keyData, dev, currentDevices), d1) \<Rightarrow>
          activateKey_commit flt now req keyData dev currentDevices d1)"

section \<open>POST /verifyKey\<close>

definition verify_catch :: response where
  "verify_catch = json_reply 500
     [(''success'', JBool False), (''valid'', JBool False),
      (''error'', JStr ''Internal server error'')]"

definition verify_not_found :: response where
  "verify_not_found = json_reply 200 [(''valid'', JBool False), (''error'', JStr ''Key not found'')]"

definition verify_reply :: "bool \<Rightarrow> key_row \<Rightarrow> string \<Rightarrow> int \<Rightarrow> string \<Rightarrow> response" where
  "verify_reply v keyData st devices msg = json_reply 200
     [(''valid'', JBool v), (''expires_at'', JDate (expires_at keyData)),
      (''status'', JStr st), (''devices_used'', JInt devices),
      (''max_devices'', JInt (max_devices keyData)), (''message'', JStr msg)]"

text \<open>
  The joined SELECT returns, for the first key row with the given key string, whether an
  activation of exactly this device exists (\<open>device_activated\<close>).
\<close>

definition verifyKey :: "faults \<Rightarrow> int \<Rightarrow> request \<Rightarrow> db \<Rightarrow> response \<times> db" where
  "verifyKey flt now req d =
     (if falsy (key req) \<or> falsy (device_id req) then (InvalidInput_missing, d)
      else case (key req, device_id req) of
        (Some k, Some dev) \<Rightarrow>
          (case flt SelKey of
            Some e \<Rightarrow> (verify_catch, d)
          | None \<Rightarrow>
          (case select_key (toUpperCase (trim k)) d of
            [] \<Rightarrow> (verify_not_found, d)
          | keyData # rest \<Rightarrow>
              let device_activated = (select_activation (id_col keyData) dev d \<noteq> []);
                  isExpired = (now > expires_at keyData) in
              if isExpired then
                (case flt UpdExpired of
                   Some e \<Rightarrow> (verify_catch, d)
                 | None \<Rightarrow>
                     let d1 = logKeyActivity flt now (id_col keyData) ''auto_expired'' req
                                (update_expired (id_col keyData) d) in
                     (case flt CountAct of
                        Some e \<Rightarrow> (verify_catch, d1)
                      | None \<Rightarrow>
                          (verify_reply False keyData ''expired''
                             (count_activations (id_col keyData) d1) ''Key has expired'', d1)))
              else
                let isValid = (status keyData = ''active'' \<and> device_activated \<and> \<not> isExpired);
                    d1 = logKeyActivity flt now (id_col keyData)
                           (if isValid then ''verified'' else ''verification_failed'') req d in
                (case flt CountAct of
                   Some e \<Rightarrow> (verify_catch, d1)
                 | None \<Rightarrow>
                     (verify_reply isValid keyData (status keyData)
                        (count_activations (id_col keyData) d1)
                        (if isValid then ''Key is valid'' else ''Key is invalid''), d1))))
      | _ \<Rightarrow> (InvalidInput_missing, d))"

section \<open>Key generator and POST /generateKey\<close>

definition chars :: string where
  "chars = ''ABCDEFGHIJKLMNOPQRSTUVWXYZ0123456789''"

definition charAt :: "string \<Rightarrow> nat \<Rightarrow> string" where
  "charAt s n = (if n < length s then [s ! n] else [])"

text \<open>\<open>r i\<close> is \<open>Math.floor(Math.random() * chars.length)\<close> of the i-th round of the loop.\<close>

definition generateKey :: "(nat \<Rightarrow> nat) \<Rightarrow> string" where
  "generateKey r =
     concat (map (\<lambda>i. (if i > 0 \<and> i mod 5 = 0 then ''-'' else []) @ charAt chars (r i)) [0..<25])"

record gen_request =
  g_duration_hours :: "int option"
  g_max_devices :: "int option"
  g_status :: "string option"

text \<open>
  \<open>INSERT INTO keys (...) RETURNING *\<close>: the sequence advances even when the UNIQUE
  constraint on key_string rejects the row; \<open>used_devices\<close> takes its default 0.
\<close>

definition insert_key ::
  "int \<Rightarrow> string \<Rightarrow> int \<Rightarrow> int \<Rightarrow> int \<Rightarrow> string \<Rightarrow> db \<Rightarrow> (pg_error + key_row) \<times> db" where
  "insert_key now keyString dh md expiresAt st d =
     (let newid = keys_id_seq d; d1 = d\<lparr>keys_id_seq := newid + 1\<rparr> in
      if select_key (units keyString) d \<noteq> [] then (Inl (PgError ''23505''), d1)
      else
        let row = \<lparr>id_col = newid, key_string = keyString, duration_hours = dh,
                   max_devices = md, used_devices = 0, created_at = now,
                   expires_at = expiresAt, status = st\<rparr>
        in (Inr row, d1\<lparr>keys := keys d1 @ [row]\<rparr>))"

definition GenerationFailed :: response where
  "GenerationFailed = fail_reply 500 ''Failed to generate unique key''"

definition Generated :: "key_row \<Rightarrow> response" where
  "Generated row = json_reply 200
     [(''success'', JBool True), (''key'', JStr (key_string row)),
      (''expires_at'', JDate (expires_at row)), (''duration_hours'', JInt (duration_hours row)),
      (''max_devices'', JInt (max_devices row))]"

text \<open>
  The retry loop \<open>for (let i = 0; i < 5; i++)\<close>, over the rounds still to run. \<open>rnd i\<close> is
  the random source of round \<open>i\<close>.
\<close>

fun generate_attempts ::
  "faults \<Rightarrow> (nat \<Rightarrow> nat \<Rightarrow> nat) \<Rightarrow> int \<Rightarrow> int \<Rightarrow> int \<Rightarrow> string \<Rightarrow> nat list \<Rightarrow> db
     \<Rightarrow> response \<times> db" where
  "generate_attempts flt rnd now dh md st [] d = (GenerationFailed, d)"
| "generate_attempts flt rnd now dh md st (i # rest) d =
     (case flt (InsKey i) of
        Some e \<Rightarrow>
          if code e = ''23505'' then generate_attempts flt rnd now dh md st rest d
          else (InternalError, d)
      | None \<Rightarrow>
          (case insert_key now (generateKey (rnd i)) dh md (now + dh * 60 * 60 * 1000) st d of
             (Inr row, d1) \<Rightarrow> (Generated row, d1)
           | (Inl e, d1) \<Rightarrow>
               if code e = ''23505'' then generate_attempts flt rnd now dh md st rest d1
               else (InternalError, d1)))"

definition generateKey_route ::
  "faults \<Rightarrow> (nat \<Rightarrow> nat \<Rightarrow> nat) \<Rightarrow> int \<Rightarrow> gen_request \<Rightarrow> db \<Rightarrow> response \<times> db" where
  "generateKey_route flt rnd now req d =
     (let dh = (case g_duration_hours req of None \<Rightarrow> 720 | Some x \<Rightarrow> x);
          md = (case g_max_devices req of None \<Rightarrow> 10 | Some x \<Rightarrow> x);
          st = (case g_status req of None \<Rightarrow> ''active'' | Some x \<Rightarrow> x) in
      if dh = 0 \<or> dh \<le> 0 then (fail_reply 400 ''Valid duration_hours is required'', d)
      else generate_attempts flt rnd now dh md st [0..<5] d)"

section \<open>The periodic sweep\<close>

text \<open>
  \<open>cleanupExpiredKeys\<close>:
  \<open>UPDATE keys SET status = 'expired' WHERE expires_at < CURRENT_TIMESTAMP AND status = 'active'\<close>;
  an error is printed and dropped.
\<close>

definition cleanupExpiredKeys :: "faults \<Rightarrow> int \<Rightarrow> db \<Rightarrow> db" where
  "cleanupExpiredKeys flt now d =
     (case flt Sweep of
        Some e \<Rightarrow> d
      | None \<Rightarrow>
          d\<lparr>keys := map (\<lambda>k. if expires_at k < now \<and> status k = ''active''
                              then k\<lparr>status := ''expired''\<rparr> else k) (keys d)\<rparr>)"

section \<open>Admin routes (after authenticateAdmin has passed the request on)\<close>

record update_request =
  u_duration_hours :: "int option"
  u_status :: "string option"
  u_max_devices :: "int option"

text \<open>
  The SET list built by PUT /admin/keys/:id, as its assignments read. With \<open>duration_hours\<close>
  given it is \<open>duration_hours = $1, expires_at = CURRENT_TIMESTAMP + INTERVAL '1 hour' * $1\<close>.
\<close>

definition apply_update :: "int \<Rightarrow> update_request \<Rightarrow> key_row \<Rightarrow> key_row" where
  "apply_update now u k =
     (let k1 = (case u_duration_hours u of
                  None \<Rightarrow> k
                | Some dh \<Rightarrow> k\<lparr>duration_hours := dh, expires_at := now + 3600000 * dh\<rparr>);
          k2 = (case u_status u of None \<Rightarrow> k1 | Some st \<Rightarrow> k1\<lparr>status := st\<rparr>);
          k3 = (case u_max_devices u of None \<Rightarrow> k2 | Some md \<Rightarrow> k2\<lparr>max_devices := md\<rparr>)
      in k3)"

text \<open>
  \<open>pool.query(query, params)\<close> of PUT /admin/keys/:id. The parameters travel untyped and
  PostgreSQL gives each one type when it parses the statement. In the SET list above \<open>$1\<close>
  stands once for the value of the INTEGER column \<open>duration_hours\<close> and once for the factor
  of an interval, whose multiplication takes double precision: no single type fits, the
  statement is refused with SQLSTATE 42P08 and no row is read or written. Without
  \<open>duration_hours\<close> every parameter occurs once and the UPDATE runs.
\<close>

definition update_query :: "int \<Rightarrow> nat \<Rightarrow> update_request \<Rightarrow> db \<Rightarrow> pg_error + db" where
  "update_query now kid u d =
     (if u_duration_hours u \<noteq> None then Inl (PgError ''42P08'')
      else Inr (d\<lparr>keys := map (\<lambda>k. if id_col k = kid then apply_update now u k else k)
                               (keys d)\<rparr>))"

definition plain_error :: "nat \<Rightarrow> string \<Rightarrow> response" where
  "plain_error c msg = json_reply c [(''error'', JStr msg)]"

definition updateKey :: "faults \<Rightarrow> int \<Rightarrow> nat \<Rightarrow> update_request \<Rightarrow> db \<Rightarrow> response \<times> db" where
  "updateKey flt now kid u d =
     (if u_duration_hours u = None \<and> u_status u = None \<and> u_max_devices u = None
      then (plain_error 400 ''No fields to update'', d)
      else case flt UpdKey of
        Some e \<Rightarrow> (InternalError, d)
      | None \<Rightarrow>
          (case update_query now kid u d of
             Inl e \<Rightarrow> (InternalError, d)
           | Inr d1 \<Rightarrow>
               (case filter (\<lambda>k. id_col k = kid) (keys d1) of
                  [] \<Rightarrow> (plain_error 404 ''Key not found'', d1)
                | row # rest \<Rightarrow>
                    (json_reply 200 [(''success'', JBool True), (''key'', JKey row)], d1))))"

text \<open>DELETE /admin/keys/:id: logs, activations and the key row go in one transaction.\<close>

definition delete_tx :: "faults \<Rightarrow> nat \<Rightarrow> db \<Rightarrow> pg_error + key_row list \<times> db" where
  "delete_tx flt kid d =
     (case flt Begin of Some e \<Rightarrow> Inl (rollback_rethrow flt e) | None \<Rightarrow>
     (case flt DelLogs of Some e \<Rightarrow> Inl (rollback_rethrow flt e) | None \<Rightarrow>
     (case flt DelActs of Some e \<Rightarrow> Inl (rollback_rethrow flt e) | None \<Rightarrow>
     (case flt DelKey of Some e \<Rightarrow> Inl (rollback_rethrow flt e) | None \<Rightarrow>
     (case flt Commit of Some e \<Rightarrow> Inl (rollback_rethrow flt e) | None \<Rightarrow>
        Inr (filter (\<lambda>k. id_col k = kid) (keys d),
             d\<lparr>key_logs := filter (\<lambda>l. log_key_id l \<noteq> kid) (key_logs d),
               key_activations := filter (\<lambda>a. act_key_id a \<noteq> kid) (key_activations d),
               keys := filter (\<lambda>k. id_col k \<noteq> kid) (keys d)\<rparr>))))))"

definition deleteKey :: "faults \<Rightarrow> nat \<Rightarrow> db \<Rightarrow> response \<times> db" where
  "deleteKey flt kid d =
     (case flt Connect of
        Some e \<Rightarrow> (InternalError, d)
      | None \<Rightarrow>
     (case delete_tx flt kid d of
        Inl e \<Rightarrow> (InternalError, d)
      | Inr (rows, d1) \<Rightarrow>
          if rows = [] then (plain_error 404 ''Key not found'', d1)
          else (json_reply 200 [(''success'', JBool True),
                                (''message'', JStr ''Key deleted successfully'')], d1)))"

text \<open>
  POST /admin/cleanup: \<open>DELETE FROM keys WHERE expires_at < CURRENT_TIMESTAMP\<close>; both child
  tables reference keys(id) ON DELETE CASCADE.
\<close>

definition adminCleanup :: "faults \<Rightarrow> int \<Rightarrow> db \<Rightarrow> response \<times> db" where
  "adminCleanup flt now d =
     (case flt DelExpired of
        Some e \<Rightarrow> (InternalError, d)
      | None \<Rightarrow>
          let gone = filter (\<lambda>k. expires_at k < now) (keys d);
              ids = set (map id_col gone) in
          (json_reply 200 [(''success'', JBool True), (''deleted_count'', JInt (int (length gone))),
                           (''deleted_keys'', JKeys gone)],
           d\<lparr>keys := filter (\<lambda>k. \<not> expires_at k < now) (keys d),
             key_activations := filter (\<lambda>a. act_key_id a \<notin> ids) (key_activations d),
             key_logs := filter (\<lambda>l. log_key_id l \<notin> ids) (key_logs d)\<rparr>))"

section \<open>The older copy of POST /activateKey\<close>

text \<open>
  The repository holds a second server file (src/unnamed/part_000) with an older
  /activateKey: the status is tested before the expiry, nothing is written on expiry,
  the activation row is inserted by a single query outside any transaction and
  \<open>used_devices\<close> is not touched; error bodies carry only \<open>error\<close>, and the log entry takes
  the User-Agent header as it is.
\<close>

definition logKeyActivity_part000 ::
  "faults \<Rightarrow> int \<Rightarrow> nat \<Rightarrow> string \<Rightarrow> request \<Rightarrow> db \<Rightarrow> db" where
  "logKeyActivity_part000 flt now keyId action req d =
     (case flt LogIns of
        Some e \<Rightarrow> d
      | None \<Rightarrow>
          if \<not> key_exists keyId d then d
          else d\<lparr>key_logs := key_logs d @
                 [\<lparr>log_key_id = keyId, log_action = action, log_ip_address = ip req,
                   log_user_agent = user_agent_hdr req, log_created_at = now\<rparr>]\<rparr>)"

definition activate_catch_part000 :: "pg_error \<Rightarrow> response" where
  "activate_catch_part000 err =
     (if code err = ''23505'' then plain_error 409 ''Device already activated with this key''
      else plain_error 500 ''Internal server error'')"

definition activateKey_part000 :: "faults \<Rightarrow> int \<Rightarrow> request \<Rightarrow> db \<Rightarrow> response \<times> db" where
  "activateKey_part000 flt now req d =
     (if falsy (key req) \<or> falsy (device_id req)
      then (plain_error 400 ''Key and device_id are required'', d)
      else case (key req, device_id req) of
        (Some k, Some dev) \<Rightarrow>
          if length dev < 5 \<or> length dev > 255
          then (plain_error 400 ''Invalid device_id format'', d)
          else (case flt SelKey of
            Some e \<Rightarrow> (activate_catch_part000 e, d)
          | None \<Rightarrow>
          (case select_key (toUpperCase (trim k)) d of
            [] \<Rightarrow> (plain_error 404 ''Key not found'', d)
          | keyData # rest \<Rightarrow>
              if status keyData \<noteq> ''active'' then (plain_error 400 ''Key is not active'', d)
              else if now > expires_at keyData then (plain_error 400 ''Key has expired'', d)
              else (case flt SelActivation of
                Some e \<Rightarrow> (activate_catch_part000 e, d)
              | None \<Rightarrow>
                  if select_activation (id_col keyData) dev d \<noteq> [] then
                    (AlreadyActivated keyData,
                     logKeyActivity_part000 flt now (id_col keyData) ''reactivated'' req d)
                  else (case flt CountAct of
                    Some e \<Rightarrow> (activate_catch_part000 e, d)
                  | None \<Rightarrow>
                      let currentDevices = count_activations (id_col keyData) d in
                      if currentDevices \<ge> max_devices keyData
                      then (plain_error 400 ''Key has reached maximum device limit'', d)
                      else (case flt InsAct of
                        Some e \<Rightarrow> (activate_catch_part000 e, d)
                      | None \<Rightarrow>
                      (case insert_activation now (id_col keyData) dev (ip req) d of
                        Inl e \<Rightarrow> (activate_catch_part000 e, d)
                      | Inr d1 \<Rightarrow>
                          (Activated keyData currentDevices,
                           logKeyActivity_part000 flt now (id_col keyData) ''activated'' req
                             d1)))))))
      | _ \<Rightarrow> (plain_error 400 ''Key and device_id are required'', d))"

section \<open>Runs of the service\<close>

text \<open>
  One completed operation on the store. \<open>ActivateCommit\<close> is the second half of an
  /activateKey handler whose checks ran on an earlier state of the store (another
  request was served in between).
\<close>

datatype op =
    GenerateKey faults "nat \<Rightarrow> nat \<Rightarrow> nat" int gen_request
  | ActivateKey faults int request
  | ActivateCommit faults int request key_row string int
  | VerifyKey faults int request
  | UpdateKey faults int nat update_request
  | DeleteKey faults nat
  | AdminCleanup faults int
  | Sweeper faults int

fun step :: "op \<Rightarrow> db \<Rightarrow> db" where
  "step (GenerateKey flt rnd now req) d = snd (generateKey_route flt rnd now req d)"
| "step (ActivateKey flt now req) d = snd (activateKey flt now req d)"
| "step (ActivateCommit flt now req keyData dev n) d =
     snd (activateKey_commit flt now req keyData dev n d)"
| "step (VerifyKey flt now req) d = snd (verifyKey flt now req d)"
| "step (UpdateKey flt now kid u) d = snd (updateKey flt now kid u d)"
| "step (DeleteKey flt kid) d = snd (deleteKey flt kid d)"
| "step (AdminCleanup flt now) d = snd (adminCleanup flt now d)"
| "step (Sweeper flt now) d = cleanupExpiredKeys flt now d"

fun run :: "op list \<Rightarrow> db \<Rightarrow> db" where
  "run [] d = d"
| "run (x # xs) d = run xs (step x d)"

text \<open>Activate calls served one after the other.\<close>

fun activate_all :: "(faults \<times> int \<times> request) list \<Rightarrow> db \<Rightarrow> db" where
  "activate_all [] d = d"
| "activate_all ((flt, now, req) # calls) d = activate_all calls (snd (activateKey flt now req d))"

section \<open>Properties of stores and replies\<close>

text \<open>
  The constraints the schema puts on the tables (primary key, sequence, foreign key,
  UNIQUE (key_id, device_id)) together with the agreement of the cached counter
  \<open>used_devices\<close> with the number of activation rows.
\<close>

definition wf_store :: "db \<Rightarrow> bool" where
  "wf_store d =
     (distinct (map id_col (keys d))
      \<and> (\<forall>k\<in>set (keys d). id_col k < keys_id_seq d)
      \<and> (\<forall>a\<in>set (key_activations d). key_exists (act_key_id a) d)
      \<and> distinct (map (\<lambda>a. (act_key_id a, act_device_id a)) (key_activations d))
      \<and> (\<forall>k\<in>set (keys d). used_devices k = count_activations (id_col k) d))"

text \<open>No key has more activation rows than its \<open>max_devices\<close>.\<close>

definition within_limit :: "db \<Rightarrow> bool" where
  "within_limit d = (\<forall>k\<in>set (keys d). count_activations (id_col k) d \<le> max_devices k)"

text \<open>The columns of the keys table the two properties above read.\<close>

definition key_counts :: "db \<Rightarrow> (nat \<times> int) list" where
  "key_counts d = map (\<lambda>k. (id_col k, used_devices k)) (keys d)"

definition key_limits :: "db \<Rightarrow> (nat \<times> int) list" where
  "key_limits d = map (\<lambda>k. (id_col k, max_devices k)) (keys d)"

text \<open>Two stores with the same rows; they may differ in the id sequence.\<close>

definition same_rows :: "db \<Rightarrow> db \<Rightarrow> bool" where
  "same_rows d' d = (keys d' = keys d \<and> key_activations d' = key_activations d
                      \<and> key_logs d' = key_logs d)"

text \<open>The body of a reply carries \<open>success: true\<close>, respectively \<open>valid: true\<close>.\<close>

definition success_reply :: "response \<Rightarrow> bool" where
  "success_reply r = (map_of (body r) ''success'' = Some (JBool True))"

definition valid_true :: "response \<Rightarrow> bool" where
  "valid_true r = (map_of (body r) ''valid'' = Some (JBool True))"

text \<open>The key row a request refers to: \<open>rows[0]\<close> of the handlers' key SELECT.\<close>

definition lookup_key :: "request \<Rightarrow> db \<Rightarrow> key_row option" where
  "lookup_key req d =
     (case key req of
        None \<Rightarrow> None
      | Some k \<Rightarrow> (case select_key (toUpperCase (trim k)) d of
                     [] \<Rightarrow> None | keyData # rest \<Rightarrow> Some keyData))"

text \<open>
  Round \<open>i\<close> of the retry loop ends in a uniqueness conflict: the key string drawn is
  taken, or the environment makes the INSERT throw 23505.
\<close>

definition collides :: "faults \<Rightarrow> (nat \<Rightarrow> nat \<Rightarrow> nat) \<Rightarrow> db \<Rightarrow> nat \<Rightarrow> bool" where
  "collides flt rnd d i =
     (case flt (InsKey i) of
        Some e \<Rightarrow> code e = ''23505''
      | None \<Rightarrow> select_key (units (generateKey (rnd i))) d \<noteq> [])"

text \<open>The \<open>duration_hours\<close> of a /generateKey request after its default.\<close>

definition requested_duration :: "gen_request \<Rightarrow> int" where
  "requested_duration req = (case g_duration_hours req of None \<Rightarrow> 720 | Some x \<Rightarrow> x)"

section \<open>A small store used for concrete runs\<close>

text \<open>
  One key of one hour for one device, created at time 0; requests that spell its key
  string in lower case with blanks around it; a random source that always draws \<open>A\<close>;
  and two environments with one failing query each.
\<close>

definition ex_key :: key_row where
  "ex_key = \<lparr>id_col = 1, key_string = ''AAAAA-AAAAA-AAAAA-AAAAA-AAAAA'', duration_hours = 1,
     max_devices = 1, used_devices = 0, created_at = 0, expires_at = 3600000,
     status = ''active''\<rparr>"

definition ex_db :: db where
  "ex_db = \<lparr>keys = [ex_key], key_activations = [], key_logs = [], keys_id_seq = 2\<rparr>"

definition ex_db_inactive :: db where
  "ex_db_inactive = ex_db\<lparr>keys := [ex_key\<lparr>status := ''inactive''\<rparr>]\<rparr>"

definition ex_req :: "string \<Rightarrow> request" where
  "ex_req dev = \<lparr>key = Some '' aaaaa-aaaaa-aaaaa-aaaaa-aaaaa '', device_id = Some dev,
                 ip = ''10.0.0.1'', user_agent_hdr = None\<rparr>"

definition ex_db_activated :: db where
  "ex_db_activated = snd (activateKey no_faults 10 (ex_req ''device-A'') ex_db)"

definition ex_rnd :: "nat \<Rightarrow> nat \<Rightarrow> nat" where
  "ex_rnd a i = 0"

definition ex_gen :: gen_request where
  "ex_gen = \<lparr>g_duration_hours = None, g_max_devices = None, g_status = None\<rparr>"

definition ex_ops :: "op list" where
  "ex_ops = [GenerateKey no_faults ex_rnd 0
               \<lparr>g_duration_hours = Some 1, g_max_devices = Some 1, g_status = None\<rparr>,
             ActivateKey no_faults 10 (ex_req ''device-A'')]"

text \<open>
  The race on the one-device key: the key is issued, then the second halves of the
  handlers for device-A and device-B run, each with the row and the count 0 that its
  checks read on the store right after the issue.
\<close>

definition ex_issue :: op where
  "ex_issue = GenerateKey no_faults ex_rnd 0
                \<lparr>g_duration_hours = Some 1, g_max_devices = Some 1, g_status = None\<rparr>"

definition ex_commit_A :: op where
  "ex_commit_A = ActivateCommit no_faults 11 (ex_req ''device-A'') ex_key ''device-A'' 0"

definition ex_commit_B :: op where
  "ex_commit_B = ActivateCommit no_faults 12 (ex_req ''device-B'') ex_key ''device-B'' 0"

definition ex_race :: "op list" where
  "ex_race = [ex_issue, ex_commit_A, ex_commit_B]"

text \<open>The same key with room for two devices, device-A activated.\<close>

definition ex_key2 :: key_row where
  "ex_key2 = ex_key\<lparr>max_devices := 2\<rparr>"

definition ex_db2 :: db where
  "ex_db2 = ex_db\<lparr>keys := [ex_key2]\<rparr>"

definition ex_db2_activated :: db where
  "ex_db2_activated = snd (activateKey no_faults 10 (ex_req ''device-A'') ex_db2)"

text \<open>An admin update of the duration to two hours.\<close>

definition ex_update :: update_request where
  "ex_update = \<lparr>u_duration_hours = Some 2, u_status = None, u_max_devices = None\<rparr>"

text \<open>An admin update of the device limit to 0.\<close>

definition ex_lower :: update_request where
  "ex_lower = \<lparr>u_duration_hours = None, u_status = None, u_max_devices = Some 0\<rparr>"

definition log_down :: faults where
  "log_down = no_faults(LogIns := Some (PgError ''08006''))"

definition other_error :: faults where
  "other_error = no_faults(InsKey 0 := Some (PgError ''08006''))"

section \<open>Framing lemmas\<close>

text \<open>
  What the writes of the handlers leave alone. \<open>wf_store\<close> and \<open>within_limit\<close> read the
  keys table only through \<open>key_counts\<close> and \<open>key_limits\<close>, so an operation that keeps these
  two lists, the activation rows and the sequence keeps both properties.
\<close>

lemma logKeyActivity_frame [simp]:
  "keys (logKeyActivity flt now kid act req d) = keys d"
  "key_activations (logKeyActivity flt now kid act req d) = key_activations d"
  "keys_id_seq (logKeyActivity flt now kid act req d) = keys_id_seq d"
  by (simp_all add: logKeyActivity_def split: option.splits)

lemma update_expired_frame [simp]:
  "key_activations (update_expired kid d) = key_activations d"
  "key_logs (update_expired kid d) = key_logs d"
  "keys_id_seq (update_expired kid d) = keys_id_seq d"
  by (simp_all add: update_expired_def)

lemma key_counts_ids: "map id_col (keys d) = map fst (key_counts d)"
  by (simp add: key_counts_def comp_def)

lemma wf_store_alt:
  "wf_store d =
     (distinct (map fst (key_counts d))
      \<and> (\<forall>(i, u)\<in>set (key_counts d). i < keys_id_seq d)
      \<and> (\<forall>a\<in>set (key_activations d). act_key_id a \<in> set (map fst (key_counts d)))
      \<and> distinct (map (\<lambda>a. (act_key_id a, act_device_id a)) (key_activations d))
      \<and> (\<forall>(i, u)\<in>set (key_counts d).
            u = int (length (filter (\<lambda>a. act_key_id a = i) (key_activations d)))))"
  unfolding wf_store_def key_exists_def count_activations_def key_counts_ids
  by (simp add: key_counts_def)

lemma within_limit_alt:
  "within_limit d =
     (\<forall>(i, m)\<in>set (key_limits d).
         int (length (filter (\<lambda>a. act_key_id a = i) (key_activations d))) \<le> m)"
  unfolding within_limit_def count_activations_def by (simp add: key_limits_def)

lemma wf_store_cong:
  assumes "key_counts d' = key_counts d" "key_activations d' = key_activations d"
    "keys_id_seq d' = keys_id_seq d"
  shows "wf_store d' = wf_store d"
  unfolding wf_store_alt using assms by simp

lemma within_limit_cong:
  assumes "key_limits d' = key_limits d" "key_activations d' = key_activations d"
  shows "within_limit d' = within_limit d"
  unfolding within_limit_alt using assms by simp

lemma key_counts_log [simp]:
  "key_counts (logKeyActivity flt now kid act req d) = key_counts d"
  "key_limits (logKeyActivity flt now kid act req d) = key_limits d"
  by (simp_all add: key_counts_def key_limits_def)

lemma key_counts_update_expired [simp]:
  "key_counts (update_expired kid d) = key_counts d"
  "key_limits (update_expired kid d) = key_limits d"
  by (simp_all add: key_counts_def key_limits_def update_expired_def comp_def)

lemma checks_frame:
  "key_counts (snd (activateKey_checks flt now req d)) = key_counts d
   \<and> key_limits (snd (activateKey_checks flt now req d)) = key_limits d
   \<and> key_activations (snd (activateKey_checks flt now req d)) = key_activations d
   \<and> keys_id_seq (snd (activateKey_checks flt now req d)) = keys_id_seq d"
  by (simp add: activateKey_checks_def Let_def split: option.splits list.splits)

lemma verifyKey_frame:
  "key_counts (snd (verifyKey flt now req d)) = key_counts d
   \<and> key_limits (snd (verifyKey flt now req d)) = key_limits d
   \<and> key_activations (snd (verifyKey flt now req d)) = key_activations d
   \<and> keys_id_seq (snd (verifyKey flt now req d)) = keys_id_seq d"
  by (simp add: verifyKey_def Let_def split: option.splits list.splits)

lemma apply_update_keeps [simp]:
  "id_col (apply_update now u k) = id_col k"
  "used_devices (apply_update now u k) = used_devices k"
  "key_string (apply_update now u k) = key_string k"
  "created_at (apply_update now u k) = created_at k"
  by (simp_all add: apply_update_def Let_def split: option.splits)

lemma updateKey_frame:
  "key_counts (snd (updateKey flt now kid u d)) = key_counts d
   \<and> key_activations (snd (updateKey flt now kid u d)) = key_activations d
   \<and> keys_id_seq (snd (updateKey flt now kid u d)) = keys_id_seq d"
  by (simp add: updateKey_def update_query_def Let_def key_counts_def comp_def
      split: option.splits list.splits)

lemma sweep_frame:
  "key_counts (cleanupExpiredKeys flt now d) = key_counts d
   \<and> key_activations (cleanupExpiredKeys flt now d) = key_activations d
   \<and> keys_id_seq (cleanupExpiredKeys flt now d) = keys_id_seq d"
  by (simp add: cleanupExpiredKeys_def key_counts_def comp_def split: option.splits)

lemma wf_checks: "wf_store (snd (activateKey_checks flt now req d)) = wf_store d"
  by (rule wf_store_cong) (simp_all add: checks_frame)

lemma wf_verify: "wf_store (snd (verifyKey flt now req d)) = wf_store d"
  by (rule wf_store_cong) (simp_all add: verifyKey_frame)

lemma wf_log: "wf_store (logKeyActivity flt now kid act req d) = wf_store d"
  by (rule wf_store_cong) simp_all

lemma wf_sweep: "wf_store (cleanupExpiredKeys flt now d) = wf_store d"
  by (rule wf_store_cong) (simp_all add: sweep_frame)

lemma wf_update: "wf_store (snd (updateKey flt now kid u d)) = wf_store d"
  by (rule wf_store_cong) (simp_all add: updateKey_frame)

lemma ex_lookup:
  "select_key (toUpperCase (trim '' aaaaa-aaaaa-aaaaa-aaaaa-aaaaa '')) ex_db = [ex_key]"
  by code_simp

lemma ex_lookup_inactive:
  "select_key (toUpperCase (trim '' aaaaa-aaaaa-aaaaa-aaaaa-aaaaa '')) ex_db_inactive
     = [ex_key\<lparr>status := ''inactive''\<rparr>]"
  by code_simp

text \<open>
  \<open>trim\<close> strips the no-break space with the ASCII white space and keeps inner blanks;
  \<open>toUpperCase\<close> on letters with and without a capital below U+0100.
\<close>

lemma trim_toUpperCase_examples:
  "trim [CHR 0xA0, CHR 0x09, CHR ''k'', CHR '' '', CHR ''e'', CHR 0x0A, CHR 0xA0] = ''k e''
   \<and> toUpperCase ''k-9e'' = units ''K-9E''
   \<and> toUpperCase [CHR 0xE9, CHR 0xDF, CHR 0xFF, CHR 0xB5, CHR 0xF7] = [201, 83, 83, 376, 924, 247]"
  by code_simp

section \<open>The store constraints are kept by every operation\<close>

text \<open>
  One lemma for each operation of \<open>step\<close>, then induction on the run.
\<close>

lemma activation_tx_Inr:
  assumes "activation_tx flt now kid dev addr d = Inr d1"
  shows "key_exists kid d \<and> select_activation kid dev d = []
         \<and> d1 = update_used kid (d\<lparr>key_activations := key_activations d @
                  [\<lparr>act_key_id = kid, act_device_id = dev, act_ip_address = addr,
                    act_created_at = now\<rparr>]\<rparr>)"
  using assms
  by (auto simp: activation_tx_def insert_activation_def split: option.splits if_splits sum.splits)

lemma key_counts_update_used:
  "key_counts (update_used kid d) = map (\<lambda>(i, u). (i, if i = kid then u + 1 else u)) (key_counts d)"
  by (simp add: key_counts_def update_used_def comp_def)

lemma update_used_frame [simp]:
  "key_activations (update_used kid d) = key_activations d"
  "key_logs (update_used kid d) = key_logs d"
  "keys_id_seq (update_used kid d) = keys_id_seq d"
  "key_limits (update_used kid d) = key_limits d"
  by (simp_all add: update_used_def key_limits_def comp_def)

lemma wf_tx:
  assumes "wf_store d" "activation_tx flt now kid dev addr d = Inr d1"
  shows "wf_store d1"
proof -
  from activation_tx_Inr [OF assms(2)]
  have ex: "key_exists kid d" and fresh: "select_activation kid dev d = []"
    and d1: "d1 = update_used kid (d\<lparr>key_activations := key_activations d @
                  [\<lparr>act_key_id = kid, act_device_id = dev, act_ip_address = addr,
                    act_created_at = now\<rparr>]\<rparr>)"
    by simp_all
  from fresh have nf: "(kid, dev) \<notin> set (map (\<lambda>a. (act_key_id a, act_device_id a)) (key_activations d))"
    by (auto simp: select_activation_def filter_empty_conv)
  from ex have ex': "kid \<in> set (map fst (key_counts d))"
    by (simp add: key_exists_def key_counts_ids)
  have kc: "key_counts (d\<lparr>key_activations := key_activations d @
                  [\<lparr>act_key_id = kid, act_device_id = dev, act_ip_address = addr,
                    act_created_at = now\<rparr>]\<rparr>) = key_counts d"
    by (simp add: key_counts_def)
  have fst_same: "map fst (map (\<lambda>(i, u). (i, if i = kid then u + 1 else u)) (key_counts d))
     = map fst (key_counts d)"
    by (simp add: comp_def case_prod_beta)
  show ?thesis
    using assms(1) ex' nf unfolding d1 wf_store_alt key_counts_update_used kc fst_same
    by (auto simp: case_prod_beta)
qed


lemma wf_commit:
  "wf_store d \<Longrightarrow> wf_store (snd (activateKey_commit flt now req keyData dev n d))"
  by (auto simp: activateKey_commit_def wf_log split: option.splits sum.splits dest: wf_tx)

lemma wf_activate:
  assumes "wf_store d" shows "wf_store (snd (activateKey flt now req d))"
proof (cases "activateKey_checks flt now req d")
  case (Pair r d1)
  with wf_checks [of flt now req d] assms have w: "wf_store d1" by simp
  show ?thesis
  proof (cases r)
    case (Inl a)
    with Pair w show ?thesis by (simp add: activateKey_def)
  next
    case (Inr b)
    with Pair w show ?thesis
      by (cases b) (simp add: activateKey_def wf_commit)
  qed
qed

lemma insert_key_cases:
  "insert_key now s dh md ex st d = (r, d1) \<Longrightarrow>
     (d1 = d\<lparr>keys_id_seq := keys_id_seq d + 1\<rparr> \<and> r = Inl (PgError ''23505'')
        \<and> select_key (units s) d \<noteq> [])
   \<or> (\<exists>row. r = Inr row \<and> select_key (units s) d = [] \<and> id_col row = keys_id_seq d \<and> used_devices row = 0
        \<and> key_string row = s \<and> duration_hours row = dh \<and> max_devices row = md
        \<and> expires_at row = ex \<and> status row = st \<and> created_at row = now
        \<and> d1 = d\<lparr>keys_id_seq := keys_id_seq d + 1, keys := keys d @ [row]\<rparr>)"
  by (auto simp: insert_key_def Let_def split: if_splits)

lemma wf_seq_bump: "wf_store d \<Longrightarrow> wf_store (d\<lparr>keys_id_seq := Suc (keys_id_seq d)\<rparr>)"
  unfolding wf_store_def key_exists_def count_activations_def by auto

lemma wf_new_key:
  assumes "wf_store d" "id_col row = keys_id_seq d" "used_devices row = 0"
  shows "wf_store (d\<lparr>keys_id_seq := Suc (keys_id_seq d), keys := keys d @ [row]\<rparr>)"
proof -
  have none: "filter (\<lambda>a. act_key_id a = keys_id_seq d) (key_activations d) = []"
    using assms(1) unfolding wf_store_def key_exists_def
    by (fastforce simp: filter_empty_conv)
  show ?thesis
    using assms none unfolding wf_store_def key_exists_def count_activations_def
    by auto
qed

lemma wf_insert_key: "wf_store d \<Longrightarrow> wf_store (snd (insert_key now s dh md ex st d))"
  using insert_key_cases [of now s dh md ex st d "fst (insert_key now s dh md ex st d)"
      "snd (insert_key now s dh md ex st d)"]
  by (auto simp: wf_seq_bump wf_new_key)

lemma wf_generate_attempts:
  "wf_store d \<Longrightarrow> wf_store (snd (generate_attempts flt rnd now dh md st rounds d))"
proof (induction rounds arbitrary: d)
  case Nil
  then show ?case by simp
next
  case (Cons i rounds)
  show ?case
  proof (cases "flt (InsKey i)")
    case (Some e)
    with Cons show ?thesis by simp
  next
    case None
    obtain r d1 where ik: "insert_key now (generateKey (rnd i)) dh md (now + dh * 60 * 60 * 1000) st d = (r, d1)"
      by (cases "insert_key now (generateKey (rnd i)) dh md (now + dh * 60 * 60 * 1000) st d")
    with wf_insert_key [OF Cons.prems, of now "generateKey (rnd i)" dh md "now + dh * 60 * 60 * 1000" st]
    have w: "wf_store d1" by simp
    with None ik Cons.IH [OF w] show ?thesis
      by (cases r) auto
  qed
qed

lemma wf_generate: "wf_store d \<Longrightarrow> wf_store (snd (generateKey_route flt rnd now req d))"
  by (simp add: generateKey_route_def Let_def wf_generate_attempts)

lemma delete_tx_Inr:
  "delete_tx flt kid d = Inr (rows, d1) \<Longrightarrow>
     rows = filter (\<lambda>k. id_col k = kid) (keys d)
     \<and> d1 = d\<lparr>key_logs := filter (\<lambda>l. log_key_id l \<noteq> kid) (key_logs d),
               key_activations := filter (\<lambda>a. act_key_id a \<noteq> kid) (key_activations d),
               keys := filter (\<lambda>k. id_col k \<noteq> kid) (keys d)\<rparr>"
  by (auto simp: delete_tx_def split: option.splits)

lemma count_after_remove:
  "i \<notin> G \<Longrightarrow> filter (\<lambda>a. act_key_id a \<notin> G \<and> act_key_id a = i) xs
     = filter (\<lambda>a. act_key_id a = i) xs"
  by (rule filter_cong) auto

lemma wf_remove_keys:
  assumes w: "wf_store d"
    and ks: "keys d' = filter (\<lambda>k. id_col k \<notin> G) (keys d)"
    and as: "key_activations d' = filter (\<lambda>a. act_key_id a \<notin> G) (key_activations d)"
    and sq: "keys_id_seq d' = keys_id_seq d"
  shows "wf_store d'"
proof -
  from w have c1: "distinct (map id_col (keys d))"
    and c2: "\<forall>k\<in>set (keys d). id_col k < keys_id_seq d"
    and c3: "\<forall>a\<in>set (key_activations d). act_key_id a \<in> set (map id_col (keys d))"
    and c4: "distinct (map (\<lambda>a. (act_key_id a, act_device_id a)) (key_activations d))"
    and c5: "\<forall>k\<in>set (keys d). used_devices k = count_activations (id_col k) d"
    by (simp_all add: wf_store_def key_exists_def)
  have g1: "distinct (map id_col (keys d'))"
    using c1 by (simp add: ks distinct_map_filter)
  have g2: "\<forall>k\<in>set (keys d'). id_col k < keys_id_seq d'"
    using c2 by (simp add: ks sq)
  have g3: "\<forall>a\<in>set (key_activations d'). key_exists (act_key_id a) d'"
  proof
    fix a assume "a \<in> set (key_activations d')"
    then have a: "a \<in> set (key_activations d)" "act_key_id a \<notin> G" by (simp_all add: as)
    with c3 obtain k where "k \<in> set (keys d)" "id_col k = act_key_id a" by auto
    with a(2) have "k \<in> set (keys d')" by (simp add: ks)
    with \<open>id_col k = act_key_id a\<close> show "key_exists (act_key_id a) d'"
      by (force simp: key_exists_def)
  qed
  have g4: "distinct (map (\<lambda>a. (act_key_id a, act_device_id a)) (key_activations d'))"
    using c4 by (simp add: as distinct_map_filter)
  have g5: "\<forall>k\<in>set (keys d'). used_devices k = count_activations (id_col k) d'"
  proof
    fix k assume "k \<in> set (keys d')"
    then have k: "k \<in> set (keys d)" "id_col k \<notin> G" by (simp_all add: ks)
    from k(2) have "count_activations (id_col k) d' = count_activations (id_col k) d"
      by (simp add: count_activations_def as count_after_remove)
    with c5 k(1) show "used_devices k = count_activations (id_col k) d'" by simp
  qed
  from g1 g2 g3 g4 g5 show ?thesis by (simp add: wf_store_def)
qed

lemma deleteKey_shape:
  "snd (deleteKey flt kid d) = d
   \<or> (keys (snd (deleteKey flt kid d)) = filter (\<lambda>k. id_col k \<notin> {kid}) (keys d)
      \<and> key_activations (snd (deleteKey flt kid d))
           = filter (\<lambda>a. act_key_id a \<notin> {kid}) (key_activations d)
      \<and> keys_id_seq (snd (deleteKey flt kid d)) = keys_id_seq d)"
proof (cases "flt Connect")
  case (Some e)
  then show ?thesis by (simp add: deleteKey_def)
next
  case None
  show ?thesis
  proof (cases "delete_tx flt kid d")
    case (Inl e)
    with None show ?thesis by (simp add: deleteKey_def)
  next
    case (Inr p)
    obtain rows d1 where p: "p = (rows, d1)" by (cases p)
    from delete_tx_Inr [OF Inr [unfolded p]] None Inr p show ?thesis
      by (simp add: deleteKey_def)
  qed
qed

lemma cleanup_shape:
  assumes "wf_store d"
  shows "snd (adminCleanup flt now d) = d
   \<or> (\<exists>G. keys (snd (adminCleanup flt now d)) = filter (\<lambda>k. id_col k \<notin> G) (keys d)
      \<and> key_activations (snd (adminCleanup flt now d))
           = filter (\<lambda>a. act_key_id a \<notin> G) (key_activations d)
      \<and> keys_id_seq (snd (adminCleanup flt now d)) = keys_id_seq d)"
proof (cases "flt DelExpired")
  case (Some e)
  then show ?thesis by (simp add: adminCleanup_def)
next
  case None
  let ?G = "set (map id_col (filter (\<lambda>k. expires_at k < now) (keys d)))"
  have stay: "(id_col k \<notin> ?G) = (\<not> expires_at k < now)" if "k \<in> set (keys d)" for k
  proof
    assume n: "id_col k \<notin> ?G"
    show "\<not> expires_at k < now"
    proof
      assume "expires_at k < now"
      with that have "id_col k \<in> ?G" by auto
      with n show False by simp
    qed
  next
    assume ne: "\<not> expires_at k < now"
    show "id_col k \<notin> ?G"
    proof
      assume "id_col k \<in> ?G"
      then obtain g where g: "g \<in> set (keys d)" "expires_at g < now" "id_col g = id_col k" by auto
      from assms have "distinct (map id_col (keys d))" by (simp add: wf_store_def)
      with g(1,3) that have "g = k" by (meson distinct_map inj_onD)
      with g(2) ne show False by simp
    qed
  qed
  have ks: "filter (\<lambda>k. \<not> expires_at k < now) (keys d) = filter (\<lambda>k. id_col k \<notin> ?G) (keys d)"
  proof (rule filter_cong)
    fix k assume "k \<in> set (keys d)"
    then show "(\<not> expires_at k < now) = (id_col k \<notin> ?G)" by (rule stay [symmetric])
  qed simp
  have "keys (snd (adminCleanup flt now d)) = filter (\<lambda>k. id_col k \<notin> ?G) (keys d)
      \<and> key_activations (snd (adminCleanup flt now d))
           = filter (\<lambda>a. act_key_id a \<notin> ?G) (key_activations d)
      \<and> keys_id_seq (snd (adminCleanup flt now d)) = keys_id_seq d"
    by (simp add: adminCleanup_def None Let_def ks)
  then show ?thesis by blast
qed

lemma wf_delete:
  assumes "wf_store d" shows "wf_store (snd (deleteKey flt kid d))"
  using deleteKey_shape [of flt kid d]
proof
  assume "snd (deleteKey flt kid d) = d"
  with assms show ?thesis by simp
next
  assume "keys (snd (deleteKey flt kid d)) = filter (\<lambda>k. id_col k \<notin> {kid}) (keys d)
      \<and> key_activations (snd (deleteKey flt kid d))
           = filter (\<lambda>a. act_key_id a \<notin> {kid}) (key_activations d)
      \<and> keys_id_seq (snd (deleteKey flt kid d)) = keys_id_seq d"
  then show ?thesis
    using wf_remove_keys [OF assms, of "snd (deleteKey flt kid d)" "{kid}"] by blast
qed

lemma wf_cleanup:
  assumes "wf_store d" shows "wf_store (snd (adminCleanup flt now d))"
  using cleanup_shape [OF assms, of flt now]
proof
  assume "snd (adminCleanup flt now d) = d"
  with assms show ?thesis by simp
next
  assume "\<exists>G. keys (snd (adminCleanup flt now d)) = filter (\<lambda>k. id_col k \<notin> G) (keys d)
      \<and> key_activations (snd (adminCleanup flt now d))
           = filter (\<lambda>a. act_key_id a \<notin> G) (key_activations d)
      \<and> keys_id_seq (snd (adminCleanup flt now d)) = keys_id_seq d"
  then show ?thesis
    using wf_remove_keys [OF assms, of "snd (adminCleanup flt now d)"] by blast
qed

lemma wf_init: "wf_store init_db"
  by (simp add: wf_store_def init_db_def)

lemma wf_step: "wf_store d \<Longrightarrow> wf_store (step x d)"
  by (cases x) (simp_all add: wf_generate wf_activate wf_commit wf_verify wf_update wf_delete
       wf_cleanup wf_sweep)

lemma wf_run: "wf_store d \<Longrightarrow> wf_store (run xs d)"
  by (induction xs arbitrary: d) (simp_all add: wf_step)

section \<open>The device limit is kept by /activateKey\<close>

text \<open>
  The values the checks hand over satisfy \<open>currentDevices < max_devices\<close> for a row of the
  keys table; with distinct ids the one new activation row then stays within the limit.
\<close>

lemma select_key_Cons:
  "select_key s d = kd # rest \<Longrightarrow> kd \<in> set (keys d) \<and> units (key_string kd) = s"
proof -
  assume a: "select_key s d = kd # rest"
  have "kd \<in> set (select_key s d)" by (simp add: a)
  then show ?thesis by (simp add: select_key_def)
qed

lemma checks_Inr:
  assumes "activateKey_checks flt now req d = (Inr (kd, dev, n), d1)"
  shows "d1 = d \<and> kd \<in> set (keys d) \<and> n = count_activations (id_col kd) d
         \<and> n < max_devices kd \<and> device_id req = Some dev
         \<and> select_activation (id_col kd) dev d = []
         \<and> status kd = ''active'' \<and> \<not> now > expires_at kd
         \<and> (\<exists>k rest. key req = Some k \<and> select_key (toUpperCase (trim k)) d = kd # rest)"
  using assms
  by (auto simp: activateKey_checks_def Let_def split: if_splits option.splits list.splits
      dest: select_key_Cons)

lemma key_limits_ids: "map id_col (keys d) = map fst (key_limits d)"
  by (simp add: key_limits_def comp_def)

lemma within_limit_tx:
  assumes w: "wf_store d" and l: "within_limit d"
    and kd: "kd \<in> set (keys d)" and room: "count_activations (id_col kd) d < max_devices kd"
    and tx: "activation_tx flt now (id_col kd) dev addr d = Inr d1"
  shows "within_limit d1"
proof -
  let ?row = "\<lparr>act_key_id = id_col kd, act_device_id = dev, act_ip_address = addr,
                    act_created_at = now\<rparr>"
  from activation_tx_Inr [OF tx]
  have d1: "d1 = update_used (id_col kd) (d\<lparr>key_activations := key_activations d @ [?row]\<rparr>)"
    by simp
  have kl: "key_limits d1 = key_limits d"
    by (simp add: d1) (simp add: key_limits_def)
  have ka: "key_activations d1 = key_activations d @ [?row]"
    by (simp add: d1)
  from w have dist: "distinct (map fst (key_limits d))"
    by (simp add: wf_store_def key_limits_ids)
  from kd have kdm: "(id_col kd, max_devices kd) \<in> set (key_limits d)"
    by (force simp: key_limits_def)
  show ?thesis
    unfolding within_limit_alt kl ka
  proof (clarify)
    fix i m assume im: "(i, m) \<in> set (key_limits d)"
    from l im have old: "int (length (filter (\<lambda>a. act_key_id a = i) (key_activations d))) \<le> m"
      unfolding within_limit_alt by auto
    show "int (length (filter (\<lambda>a. act_key_id a = i) (key_activations d @ [?row]))) \<le> m"
    proof (cases "i = id_col kd")
      case True
      with im kdm dist have "m = max_devices kd"
        by (metis eq_key_imp_eq_value)
      with room True show ?thesis by (simp add: count_activations_def)
    next
      case False
      with old show ?thesis by simp
    qed
  qed
qed

lemma within_limit_activate:
  assumes w: "wf_store d" and l: "within_limit d"
  shows "within_limit (snd (activateKey flt now req d))"
proof (cases "activateKey_checks flt now req d")
  case (Pair r d1)
  have l1: "within_limit d1"
    using within_limit_cong [of d1 d] checks_frame [of flt now req d] Pair l by simp
  show ?thesis
  proof (cases r)
    case (Inl a)
    with Pair l1 show ?thesis by (simp add: activateKey_def)
  next
    case (Inr b)
    obtain kd dev n where b: "b = (kd, dev, n)" by (cases b)
    from checks_Inr [OF Pair [unfolded Inr b]]
    have f: "d1 = d" "kd \<in> set (keys d)" "n = count_activations (id_col kd) d" "n < max_devices kd"
      by simp_all
    have "within_limit (snd (activateKey_commit flt now req kd dev n d))"
    proof (cases "flt Connect")
      case (Some e)
      with l show ?thesis by (simp add: activateKey_commit_def)
    next
      case None
      show ?thesis
      proof (cases "activation_tx flt now (id_col kd) dev (ip req) d")
        case (Inl e)
        with None l show ?thesis by (simp add: activateKey_commit_def)
      next
        case (Inr d2)
        from within_limit_tx [OF w l f(2) _ Inr] f(3,4) have "within_limit d2" by simp
        then have "within_limit (logKeyActivity flt now (id_col kd) ''activated'' req d2)"
          using within_limit_cong [of "logKeyActivity flt now (id_col kd) ''activated'' req d2" d2]
          by simp
        with None Inr show ?thesis by (simp add: activateKey_commit_def)
      qed
    qed
    with Pair Inr b f(1) show ?thesis by (simp add: activateKey_def)
  qed
qed

lemma activate_all_invariant:
  "wf_store d \<Longrightarrow> within_limit d \<Longrightarrow>
     wf_store (activate_all calls d) \<and> within_limit (activate_all calls d)"
proof (induction calls arbitrary: d)
  case Nil
  then show ?case by simp
next
  case (Cons c calls)
  obtain flt now req where c: "c = (flt, now, req)" by (cases c)
  from Cons.prems have "wf_store (snd (activateKey flt now req d))"
    "within_limit (snd (activateKey flt now req d))"
    by (simp_all add: wf_activate within_limit_activate)
  from Cons.IH [OF this] c show ?case by simp
qed

section \<open>Which rows an operation can remove\<close>

text \<open>
  Only DELETE /admin/keys/:id and POST /admin/cleanup remove rows, and they remove the
  rows of a set of key ids from both tables.
\<close>

lemma removed_with_key:
  assumes "keys d' = filter (\<lambda>k. id_col k \<notin> G) (keys d)"
    and "key_activations d' = filter (\<lambda>a. act_key_id a \<notin> G) (key_activations d)"
    and "a \<in> set (key_activations d)" "a \<notin> set (key_activations d')"
  shows "\<not> key_exists (act_key_id a) d'"
  using assms by (auto simp: key_exists_def)

lemma generate_attempts_frame:
  "key_activations (snd (generate_attempts flt rnd now dh md st rounds d)) = key_activations d"
proof (induction rounds arbitrary: d)
  case Nil
  show ?case by simp
next
  case (Cons i rounds)
  show ?case
  proof (cases "flt (InsKey i)")
    case (Some e)
    with Cons show ?thesis by simp
  next
    case None
    obtain r d1 where ik: "insert_key now (generateKey (rnd i)) dh md (now + dh * 60 * 60 * 1000) st d = (r, d1)"
      by (cases "insert_key now (generateKey (rnd i)) dh md (now + dh * 60 * 60 * 1000) st d")
    from insert_key_cases [OF ik] have "key_activations d1 = key_activations d" by auto
    with None ik Cons.IH [of d1] show ?thesis
      by (cases r) auto
  qed
qed

lemma generate_frame:
  "key_activations (snd (generateKey_route flt rnd now req d)) = key_activations d"
  by (simp add: generateKey_route_def Let_def generate_attempts_frame)

lemma commit_shape:
  "(keys (snd (activateKey_commit flt now req kd dev n d)) = keys d
      \<and> key_activations (snd (activateKey_commit flt now req kd dev n d)) = key_activations d)
   \<or> (keys (snd (activateKey_commit flt now req kd dev n d)) = keys (update_used (id_col kd) d)
      \<and> key_activations (snd (activateKey_commit flt now req kd dev n d))
           = key_activations d @ [\<lparr>act_key_id = id_col kd, act_device_id = dev,
                act_ip_address = ip req, act_created_at = now\<rparr>])"
proof (cases "flt Connect")
  case (Some e)
  then show ?thesis by (simp add: activateKey_commit_def)
next
  case None
  show ?thesis
  proof (cases "activation_tx flt now (id_col kd) dev (ip req) d")
    case (Inl e)
    with None show ?thesis by (simp add: activateKey_commit_def)
  next
    case (Inr d1)
    from activation_tx_Inr [OF Inr] None Inr show ?thesis
      by (simp add: activateKey_commit_def update_used_def)
  qed
qed

lemma commit_keeps_rows:
  "set (key_activations d) \<subseteq> set (key_activations (snd (activateKey_commit flt now req kd dev n d)))"
  using commit_shape [of flt now req kd dev n d] by auto

lemma activate_keeps_rows:
  "set (key_activations d) \<subseteq> set (key_activations (snd (activateKey flt now req d)))"
proof (cases "activateKey_checks flt now req d")
  case (Pair r d1)
  from checks_frame [of flt now req d] Pair have a: "key_activations d1 = key_activations d" by simp
  show ?thesis
  proof (cases r)
    case (Inl x)
    with Pair a show ?thesis by (simp add: activateKey_def)
  next
    case (Inr b)
    obtain kd dev n where b: "b = (kd, dev, n)" by (cases b)
    from Pair Inr b a commit_keeps_rows [of d1 flt now req kd dev n] show ?thesis
      by (simp add: activateKey_def)
  qed
qed

lemma step_removes_only_with_key:
  assumes w: "wf_store d" and a: "a \<in> set (key_activations d)"
    and gone: "a \<notin> set (key_activations (step x d))"
  shows "\<not> key_exists (act_key_id a) (step x d)"
proof (cases x)
  case (GenerateKey flt rnd now req)
  with a gone show ?thesis by (simp add: generate_frame)
next
  case (ActivateKey flt now req)
  with a gone activate_keeps_rows [of d flt now req] show ?thesis by auto
next
  case (ActivateCommit flt now req kd dev n)
  with a gone commit_keeps_rows [of d flt now req kd dev n] show ?thesis by auto
next
  case (VerifyKey flt now req)
  with a gone show ?thesis by (simp add: verifyKey_frame)
next
  case (UpdateKey flt now kid u)
  with a gone show ?thesis by (simp add: updateKey_frame)
next
  case (DeleteKey flt kid)
  with a gone deleteKey_shape [of flt kid d] show ?thesis
    by (auto simp: key_exists_def)
next
  case (AdminCleanup flt now)
  from cleanup_shape [OF w, of flt now] show ?thesis
  proof
    assume "snd (adminCleanup flt now d) = d"
    with AdminCleanup a gone show ?thesis by simp
  next
    assume "\<exists>G. keys (snd (adminCleanup flt now d)) = filter (\<lambda>k. id_col k \<notin> G) (keys d)
      \<and> key_activations (snd (adminCleanup flt now d))
           = filter (\<lambda>a. act_key_id a \<notin> G) (key_activations d)
      \<and> keys_id_seq (snd (adminCleanup flt now d)) = keys_id_seq d"
    then obtain G where G: "keys (snd (adminCleanup flt now d)) = filter (\<lambda>k. id_col k \<notin> G) (keys d)"
      "key_activations (snd (adminCleanup flt now d))
           = filter (\<lambda>a. act_key_id a \<notin> G) (key_activations d)" by blast
    from removed_with_key [OF G a] gone AdminCleanup show ?thesis by simp
  qed
next
  case (Sweeper flt now)
  with a gone show ?thesis by (simp add: sweep_frame)
qed

lemma success_fail_reply [simp]: "\<not> success_reply (fail_reply c msg)"
  by (simp add: success_reply_def fail_reply_def json_reply_def)

lemma fail_replies [simp]:
  "\<not> success_reply InvalidInput_missing" "\<not> success_reply InvalidInput_device"
  "\<not> success_reply KeyNotFound" "\<not> success_reply KeyExpired" "\<not> success_reply KeyNotActive"
  "\<not> success_reply DeviceLimitReached" "\<not> success_reply (activate_catch e)"
  by (simp_all add: InvalidInput_missing_def InvalidInput_device_def
        KeyNotFound_def KeyExpired_def KeyNotActive_def DeviceLimitReached_def activate_catch_def
        DeviceConflict_def InternalError_def)

lemma limit_blocks:
  assumes "key req = Some k" "device_id req = Some dev"
    and "select_key (toUpperCase (trim k)) d = keyData # rest"
    and "select_activation (id_col keyData) dev d = []"
    and "count_activations (id_col keyData) d \<ge> max_devices keyData"
  shows "case fst (activateKey_checks flt now req d) of
           Inl r \<Rightarrow> \<not> success_reply r | Inr x \<Rightarrow> False"
  using assms
  by (simp add: activateKey_checks_def Let_def split: option.splits)

lemma limit_reply:
  assumes "key req = Some k" "device_id req = Some dev"
    and "select_key (toUpperCase (trim k)) d = keyData # rest"
    and "select_activation (id_col keyData) dev d = []"
    and "count_activations (id_col keyData) d \<ge> max_devices keyData"
    and "k \<noteq> []" "5 \<le> length dev" "length dev \<le> 255"
    and "flt SelKey = None" "flt SelActivation = None" "flt CountAct = None"
    and "\<not> now > expires_at keyData" "status keyData = ''active''"
  shows "activateKey flt now req d = (DeviceLimitReached, d)"
proof -
  from assms(7) have "dev \<noteq> []" by auto
  with assms show ?thesis
    by (simp add: activateKey_def activateKey_checks_def Let_def)
qed


lemma ex_activated_lookup:
  "select_key (toUpperCase (trim '' aaaaa-aaaaa-aaaaa-aaaaa-aaaaa '')) ex_db_activated
     = [ex_key\<lparr>used_devices := 1\<rparr>]"
  by code_simp


section \<open>Facts about /activateKey on an activated device\<close>

text \<open>
  The path of the handler when the device already has its row, and the state a successful
  call leaves behind.
\<close>

lemma success_AlreadyActivated [simp]: "success_reply (AlreadyActivated kd)"
  by (simp add: success_reply_def AlreadyActivated_def json_reply_def)

lemma success_Activated [simp]: "success_reply (Activated kd n)"
  by (simp add: success_reply_def Activated_def json_reply_def)

lemma reactivate_reply:
  assumes "key req = Some k" "device_id req = Some dev"
    and "select_key (toUpperCase (trim k)) d = keyData # rest"
    and "select_activation (id_col keyData) dev d \<noteq> []"
    and "k \<noteq> []" "5 \<le> length dev" "length dev \<le> 255"
    and "flt SelKey = None" "flt SelActivation = None"
    and "\<not> now > expires_at keyData" "status keyData = ''active''"
  shows "activateKey flt now req d
           = (AlreadyActivated keyData, logKeyActivity flt now (id_col keyData) ''reactivated'' req d)"
proof -
  from assms(6) have "dev \<noteq> []" by auto
  with assms show ?thesis
    by (simp add: activateKey_def activateKey_checks_def Let_def)
qed

lemma reactivate_no_commit:
  assumes "key req = Some k" "device_id req = Some dev"
    and "select_key (toUpperCase (trim k)) d = keyData # rest"
    and "select_activation (id_col keyData) dev d \<noteq> []"
  shows "case fst (activateKey_checks flt now req d) of Inl r \<Rightarrow> True | Inr x \<Rightarrow> False"
  using assms
  by (simp add: activateKey_checks_def Let_def split: option.splits)

lemma reactivate_frame:
  assumes "key req = Some k" "device_id req = Some dev"
    and "select_key (toUpperCase (trim k)) d = keyData # rest"
    and "select_activation (id_col keyData) dev d \<noteq> []"
  shows "key_activations (snd (activateKey flt now req d)) = key_activations d
       \<and> key_counts (snd (activateKey flt now req d)) = key_counts d"
proof -
  from reactivate_no_commit [OF assms, of flt now]
  obtain r where r: "fst (activateKey_checks flt now req d) = Inl r"
    by (cases "fst (activateKey_checks flt now req d)") auto
  then have a: "activateKey flt now req d = (r, snd (activateKey_checks flt now req d))"
    by (cases "activateKey_checks flt now req d") (simp add: activateKey_def)
  show ?thesis by (simp add: a checks_frame)
qed

lemma log_appended:
  "flt LogIns = None \<Longrightarrow> key_exists kid d \<Longrightarrow>
     map log_action (key_logs (logKeyActivity flt now kid act req d))
       = map log_action (key_logs d) @ [act]"
  by (simp add: logKeyActivity_def)

lemma select_key_exists: "select_key s d = kd # rest \<Longrightarrow> key_exists (id_col kd) d"
  using select_key_Cons [of s d kd rest] by (auto simp: key_exists_def)

lemma checks_Inl_success:
  "case fst (activateKey_checks flt now req d) of
     Inr x \<Rightarrow> True
   | Inl r \<Rightarrow> success_reply r \<longrightarrow>
       (\<exists>k dev kd rest. key req = Some k \<and> k \<noteq> [] \<and> device_id req = Some dev
          \<and> 5 \<le> length dev \<and> length dev \<le> 255
          \<and> select_key (toUpperCase (trim k)) d = kd # rest
          \<and> status kd = ''active'' \<and> \<not> now > expires_at kd
          \<and> select_activation (id_col kd) dev d \<noteq> []
          \<and> keys (snd (activateKey_checks flt now req d)) = keys d)"
  by (simp add: activateKey_checks_def Let_def split: option.splits list.splits)

lemma checks_Inr_request:
  assumes "activateKey_checks flt now req d = (Inr (kd, dev, n), d1)"
  shows "\<exists>k rest. key req = Some k \<and> k \<noteq> [] \<and> 5 \<le> length dev \<and> length dev \<le> 255
            \<and> select_key (toUpperCase (trim k)) d = kd # rest"
  using assms
  by (auto simp: activateKey_checks_def Let_def split: if_splits option.splits list.splits)

lemma filter_map_keep: "(\<And>x. P (f x) = P x) \<Longrightarrow> filter P (map f xs) = map f (filter P xs)"
  by (induction xs) auto

lemma select_key_update_used:
  "select_key s (update_used kid d)
     = map (\<lambda>k. if id_col k = kid then k\<lparr>used_devices := used_devices k + 1\<rparr> else k)
         (select_key s d)"
  unfolding select_key_def update_used_def
  by (simp add: filter_map_keep)

lemma select_key_keys: "keys d' = keys d \<Longrightarrow> select_key s d' = select_key s d"
  by (simp add: select_key_def)

lemma select_activation_rows:
  "key_activations d' = key_activations d \<Longrightarrow> select_activation kid dev d' = select_activation kid dev d"
  by (simp add: select_activation_def)

lemma commit_success:
  assumes "success_reply (fst (activateKey_commit flt now req kd dev n d))"
  shows "\<exists>d2. activation_tx flt now (id_col kd) dev (ip req) d = Inr d2
          \<and> snd (activateKey_commit flt now req kd dev n d)
               = logKeyActivity flt now (id_col kd) ''activated'' req d2"
  using assms
  by (auto simp: activateKey_commit_def split: option.splits sum.splits)

lemma activate_success_state:
  assumes s: "success_reply (fst (activateKey flt now req d))"
  shows "\<exists>k dev kd0 rest0 kd rest.
           key req = Some k \<and> k \<noteq> [] \<and> device_id req = Some dev
           \<and> 5 \<le> length dev \<and> length dev \<le> 255
           \<and> select_key (toUpperCase (trim k)) d = kd0 # rest0
           \<and> \<not> now > expires_at kd0
           \<and> select_key (toUpperCase (trim k)) (snd (activateKey flt now req d)) = kd # rest
           \<and> status kd = ''active'' \<and> expires_at kd = expires_at kd0
           \<and> duration_hours kd = duration_hours kd0 \<and> id_col kd = id_col kd0
           \<and> select_activation (id_col kd) dev (snd (activateKey flt now req d)) \<noteq> []"
proof (cases "activateKey_checks flt now req d")
  case (Pair r d1)
  show ?thesis
  proof (cases r)
    case (Inl x)
    with Pair have a: "activateKey flt now req d = (x, d1)" by (simp add: activateKey_def)
    with s have sx: "success_reply x" by simp
    from checks_Inl_success [where flt = flt and now = now and req = req and d = d] Pair Inl sx
    obtain k dev kd rest where f: "key req = Some k" "k \<noteq> []" "device_id req = Some dev"
        "5 \<le> length dev" "length dev \<le> 255"
        "select_key (toUpperCase (trim k)) d = kd # rest"
        "status kd = ''active''" "\<not> now > expires_at kd"
        "select_activation (id_col kd) dev d \<noteq> []" "keys d1 = keys d"
      by auto
    from checks_frame [of flt now req d] Pair have "key_activations d1 = key_activations d" by simp
    with f show ?thesis
      by (simp add: a select_key_keys [of d1 d] select_activation_rows [of d1 d])
  next
    case (Inr b)
    obtain kd dev n where b: "b = (kd, dev, n)" by (cases b)
    note c = Pair [unfolded Inr b]
    from checks_Inr [OF c] have f1: "d1 = d" "device_id req = Some dev" "status kd = ''active''"
        "\<not> now > expires_at kd" by simp_all
    from checks_Inr_request [OF c]
    obtain k rest where f2: "key req = Some k" "k \<noteq> []" "5 \<le> length dev" "length dev \<le> 255"
        "select_key (toUpperCase (trim k)) d = kd # rest" by blast
    from c f1(1) have a: "activateKey flt now req d = activateKey_commit flt now req kd dev n d"
      by (simp add: activateKey_def)
    from commit_success [of flt now req kd dev n d] s a
    obtain d2 where tx: "activation_tx flt now (id_col kd) dev (ip req) d = Inr d2"
      and d': "snd (activateKey flt now req d) = logKeyActivity flt now (id_col kd) ''activated'' req d2"
      by auto
    from activation_tx_Inr [OF tx]
    have d2: "d2 = update_used (id_col kd) (d\<lparr>key_activations := key_activations d @
                  [\<lparr>act_key_id = id_col kd, act_device_id = dev, act_ip_address = ip req,
                    act_created_at = now\<rparr>]\<rparr>)" by simp
    have sk: "select_key (toUpperCase (trim k)) (snd (activateKey flt now req d))
       = kd\<lparr>used_devices := used_devices kd + 1\<rparr> #
           map (\<lambda>k. if id_col k = id_col kd then k\<lparr>used_devices := used_devices k + 1\<rparr> else k) rest"
    proof -
      let ?d0 = "d\<lparr>key_activations := key_activations d @
                  [\<lparr>act_key_id = id_col kd, act_device_id = dev, act_ip_address = ip req,
                    act_created_at = now\<rparr>]\<rparr>"
      have "select_key (toUpperCase (trim k)) ?d0 = kd # rest"
        using f2(5) by (simp add: select_key_def)
      then have "select_key (toUpperCase (trim k)) d2
         = kd\<lparr>used_devices := used_devices kd + 1\<rparr> #
           map (\<lambda>k. if id_col k = id_col kd then k\<lparr>used_devices := used_devices k + 1\<rparr> else k) rest"
        unfolding d2 select_key_update_used by simp
      then show ?thesis
        by (simp add: d' select_key_keys [of "logKeyActivity flt now (id_col kd) ''activated'' req d2" d2])
    qed
    have sa: "select_activation (id_col kd) dev (snd (activateKey flt now req d)) \<noteq> []"
      by (simp add: d' d2 select_activation_def)
    from f1 f2 sk sa show ?thesis by simp
  qed
qed

section \<open>Facts about /verifyKey\<close>

text \<open>
  The handler unfolded for a key that is found and not expired, and for every other
  request.
\<close>

lemma valid_true_replies [simp]:
  "\<not> valid_true InvalidInput_missing" "\<not> valid_true verify_catch" "\<not> valid_true verify_not_found"
  "valid_true (verify_reply v kd st n msg) = v"
  by (simp_all add: valid_true_def InvalidInput_missing_def fail_reply_def json_reply_def
        verify_catch_def verify_not_found_def verify_reply_def)

lemma verify_valid_iff:
  "valid_true (fst (verifyKey flt now req d))
     = (\<exists>k dev keyData rest. key req = Some k \<and> k \<noteq> [] \<and> device_id req = Some dev \<and> dev \<noteq> []
          \<and> flt SelKey = None \<and> flt CountAct = None
          \<and> select_key (toUpperCase (trim k)) d = keyData # rest
          \<and> status keyData = ''active''
          \<and> select_activation (id_col keyData) dev d \<noteq> []
          \<and> \<not> now > expires_at keyData)"
  by (simp add: verifyKey_def Let_def split: option.splits list.splits) blast

lemma verifyKey_found:
  assumes "key req = Some k" "k \<noteq> []" "device_id req = Some dev" "dev \<noteq> []"
    and "flt SelKey = None" "select_key (toUpperCase (trim k)) d = kd # rest"
    and "\<not> now > expires_at kd"
  shows "verifyKey flt now req d =
     (let isValid = (status kd = ''active'' \<and> select_activation (id_col kd) dev d \<noteq> []);
          d1 = logKeyActivity flt now (id_col kd)
                 (if isValid then ''verified'' else ''verification_failed'') req d
      in (case flt CountAct of
            Some e \<Rightarrow> verify_catch
          | None \<Rightarrow> verify_reply isValid kd (status kd) (count_activations (id_col kd) d1)
                      (if isValid then ''Key is valid'' else ''Key is invalid''), d1))"
  using assms by (simp add: verifyKey_def Let_def split: option.splits)

lemma verifyKey_not_found:
  assumes "\<not> (\<exists>k dev kd rest. key req = Some k \<and> k \<noteq> [] \<and> device_id req = Some dev
              \<and> dev \<noteq> [] \<and> flt SelKey = None
              \<and> select_key (toUpperCase (trim k)) d = kd # rest)"
  shows "snd (verifyKey flt now req d) = d"
proof (cases "key req")
  case None
  then show ?thesis by (simp add: verifyKey_def)
next
  case k: (Some k)
  show ?thesis
  proof (cases "device_id req")
    case None
    with k show ?thesis by (simp add: verifyKey_def)
  next
    case dv: (Some dev)
    show ?thesis
    proof (cases "k = [] \<or> dev = []")
      case True
      with k dv show ?thesis by (auto simp: verifyKey_def)
    next
      case ne: False
      show ?thesis
      proof (cases "flt SelKey")
        case (Some e)
        with k dv ne show ?thesis by (simp add: verifyKey_def)
      next
        case None
        with assms k dv ne have "select_key (toUpperCase (trim k)) d = []"
          by (cases "select_key (toUpperCase (trim k)) d") auto
        with k dv ne None show ?thesis by (simp add: verifyKey_def)
      qed
    qed
  qed
qed

lemma verify_not_expired_state:
  assumes "case lookup_key req d of None \<Rightarrow> True | Some kd \<Rightarrow> \<not> now > expires_at kd"
  shows "snd (verifyKey flt now req d) = d
       \<or> (\<exists>kid. snd (verifyKey flt now req d) = logKeyActivity flt now kid ''verified'' req d)
       \<or> (\<exists>kid. snd (verifyKey flt now req d)
                  = logKeyActivity flt now kid ''verification_failed'' req d)"
proof (cases "\<exists>k dev kd rest. key req = Some k \<and> k \<noteq> [] \<and> device_id req = Some dev
              \<and> dev \<noteq> [] \<and> flt SelKey = None
              \<and> select_key (toUpperCase (trim k)) d = kd # rest")
  case False
  then show ?thesis using verifyKey_not_found [of req flt d now] by simp
next
  case True
  then obtain k dev kd rest where f: "key req = Some k" "k \<noteq> []" "device_id req = Some dev"
      "dev \<noteq> []" "flt SelKey = None" "select_key (toUpperCase (trim k)) d = kd # rest"
    by blast
  with assms have "\<not> now > expires_at kd" by (simp add: lookup_key_def)
  from verifyKey_found [where flt = flt, OF f this] show ?thesis
    by (cases "flt CountAct") (auto simp: Let_def)
qed

lemma log_shape:
  "logKeyActivity flt now kid act req d = d
   \<or> (\<exists>e. key_logs (logKeyActivity flt now kid act req d) = key_logs d @ [e] \<and> log_action e = act)"
  by (simp add: logKeyActivity_def split: option.splits)

lemma log_failure: "flt LogIns \<noteq> None \<Longrightarrow> logKeyActivity flt now kid act req d = d"
  by (auto simp: logKeyActivity_def split: option.splits)

lemma verify_frame_ok:
  assumes "case lookup_key req d of None \<Rightarrow> True | Some kd \<Rightarrow> \<not> now > expires_at kd"
  shows "keys (snd (verifyKey flt now req d)) = keys d
       \<and> (key_logs (snd (verifyKey flt now req d)) = key_logs d
          \<or> (\<exists>e. key_logs (snd (verifyKey flt now req d)) = key_logs d @ [e]
                \<and> log_action e \<in> {''verified'', ''verification_failed''}))"
proof -
  from verify_not_expired_state [OF assms, of flt]
  consider "snd (verifyKey flt now req d) = d"
    | kid where "snd (verifyKey flt now req d) = logKeyActivity flt now kid ''verified'' req d"
    | kid where "snd (verifyKey flt now req d) = logKeyActivity flt now kid ''verification_failed'' req d"
    by blast
  then show ?thesis
  proof cases
    case 1
    then show ?thesis by simp
  next
    case 2
    with log_shape [of flt now kid "''verified''" req d] show ?thesis by auto
  next
    case 3
    with log_shape [of flt now kid "''verification_failed''" req d] show ?thesis by auto
  qed
qed

lemma verify_log_failure_swallowed:
  assumes "case lookup_key req d of None \<Rightarrow> True | Some kd \<Rightarrow> \<not> now > expires_at kd"
    and "flt LogIns \<noteq> None"
  shows "snd (verifyKey flt now req d) = d
       \<and> fst (verifyKey flt now req d) = fst (verifyKey (flt(LogIns := None)) now req d)"
proof -
  from verify_not_expired_state [OF assms(1), of flt] assms(2)
  have s: "snd (verifyKey flt now req d) = d" by (auto simp: log_failure)
  have c: "count_activations i (logKeyActivity f n kid act req d) = count_activations i d"
    for i f n kid act
    by (simp add: count_activations_def)
  have "fst (verifyKey flt now req d) = fst (verifyKey (flt(LogIns := None)) now req d)"
    using assms(1)
    by (simp add: verifyKey_def Let_def lookup_key_def c split: option.splits list.splits)
  with s show ?thesis by simp
qed

section \<open>Facts about the retry loop of /generateKey\<close>

text \<open>
  A round that collides changes no row, so the rounds before the first round that does
  not collide can be skipped.
\<close>

lemma same_rows_refl [simp]: "same_rows d d"
  by (simp add: same_rows_def)

lemma same_rows_trans: "same_rows d'' d' \<Longrightarrow> same_rows d' d \<Longrightarrow> same_rows d'' d"
  by (simp add: same_rows_def)

lemma collides_same_rows: "same_rows d' d \<Longrightarrow> collides flt rnd d' i = collides flt rnd d i"
  by (simp add: collides_def same_rows_def select_key_def split: option.splits)

lemma attempt_collides:
  assumes "collides flt rnd d i"
  shows "\<exists>d'. same_rows d' d
           \<and> generate_attempts flt rnd now dh md st (i # rest) d
               = generate_attempts flt rnd now dh md st rest d'"
proof (cases "flt (InsKey i)")
  case (Some e)
  with assms have "generate_attempts flt rnd now dh md st (i # rest) d
               = generate_attempts flt rnd now dh md st rest d"
    by (simp add: collides_def)
  then show ?thesis using same_rows_refl by blast
next
  case None
  with assms have c: "select_key (units (generateKey (rnd i))) d \<noteq> []" by (simp add: collides_def)
  let ?d' = "d\<lparr>keys_id_seq := keys_id_seq d + 1\<rparr>"
  from c None have "generate_attempts flt rnd now dh md st (i # rest) d
               = generate_attempts flt rnd now dh md st rest ?d'"
    by (simp add: insert_key_def Let_def)
  moreover have "same_rows ?d' d" by (simp add: same_rows_def)
  ultimately show ?thesis by blast
qed

lemma attempts_prefix:
  "\<forall>i\<in>set pre. collides flt rnd d i \<Longrightarrow>
     \<exists>d'. same_rows d' d
        \<and> generate_attempts flt rnd now dh md st (pre @ rest) d
            = generate_attempts flt rnd now dh md st rest d'"
proof (induction pre arbitrary: d)
  case Nil
  show ?case by (intro exI [of _ d]) simp
next
  case (Cons i pre)
  from Cons.prems have ci: "collides flt rnd d i" by simp
  from attempt_collides [OF ci, of now dh md st "pre @ rest"]
  obtain d1 where d1: "same_rows d1 d"
    "generate_attempts flt rnd now dh md st (i # pre @ rest) d
       = generate_attempts flt rnd now dh md st (pre @ rest) d1" by blast
  from Cons.prems d1(1) have "\<forall>j\<in>set pre. collides flt rnd d1 j"
    by (simp add: collides_same_rows)
  from Cons.IH [OF this] obtain d2 where d2: "same_rows d2 d1"
    "generate_attempts flt rnd now dh md st (pre @ rest) d1
       = generate_attempts flt rnd now dh md st rest d2" by blast
  from d1 d2 same_rows_trans [OF d2(1) d1(1)] show ?case by auto
qed

lemma route_attempts:
  "0 < requested_duration req \<Longrightarrow>
     generateKey_route flt rnd now req d
       = generate_attempts flt rnd now (requested_duration req)
           (case g_max_devices req of None \<Rightarrow> 10 | Some x \<Rightarrow> x)
           (case g_status req of None \<Rightarrow> ''active'' | Some x \<Rightarrow> x) [0..<5] d"
  by (simp add: generateKey_route_def requested_duration_def Let_def)

lemma rounds_split: "j < 5 \<Longrightarrow> [0..<5] = [0..<j] @ j # [Suc j..<5]"
  using upt_add_eq_append [of 0 j "5 - j"] by (simp add: upt_conv_Cons)

lemma ex_always_collides: "collides no_faults ex_rnd ex_db i"
proof -
  have r: "ex_rnd i = (\<lambda>x. 0)" by (rule ext) (simp add: ex_rnd_def)
  have "select_key (units (generateKey (\<lambda>x. 0))) ex_db \<noteq> []" by code_simp
  then show ?thesis by (simp add: collides_def no_faults_def r)
qed

section \<open>Facts about the expiry branch of /activateKey\<close>

text \<open>
  The expiry UPDATE sets the status of the rows it selects, and no reply of the handler for
  an expired key is \<open>Key is not active\<close>.
\<close>

lemma key_exists_update_expired:
  "key_exists kid' (update_expired kid d) = key_exists kid' d"
  by (simp add: key_exists_def key_counts_ids)

lemma update_expired_status:
  assumes "k' \<in> set (keys (update_expired kid d))" "id_col k' = kid"
  shows "status k' = ''expired''"
proof -
  from assms(1)
  have "k' \<in> (\<lambda>k. if id_col k = kid then k\<lparr>status := ''expired''\<rparr> else k) ` set (keys d)"
    by (simp add: update_expired_def)
  then obtain k
    where k: "k' = (if id_col k = kid then k\<lparr>status := ''expired''\<rparr> else k)"
    by blast
  show ?thesis
  proof (cases "id_col k = kid")
    case True
    with k show ?thesis by simp
  next
    case False
    with k assms(2) show ?thesis by simp
  qed
qed

lemma not_KeyNotActive:
  "InvalidInput_missing \<noteq> KeyNotActive" "InvalidInput_device \<noteq> KeyNotActive"
  "KeyExpired \<noteq> KeyNotActive" "activate_catch e \<noteq> KeyNotActive"
  by (simp_all add: KeyNotActive_def InvalidInput_missing_def InvalidInput_device_def
        KeyExpired_def activate_catch_def DeviceConflict_def InternalError_def fail_reply_def
        json_reply_def)

lemma never_not_active_when_expired:
  assumes "key req = Some k" "select_key (toUpperCase (trim k)) d = keyData # rest"
    and "now > expires_at keyData"
  shows "fst (activateKey flt now req d) \<noteq> KeyNotActive"
  using assms
  by (simp add: activateKey_def activateKey_checks_def not_KeyNotActive split: option.splits)

section \<open>Admin update of the duration\<close>

text \<open>
  Every PUT /admin/keys/:id that carries \<open>duration_hours\<close> is answered 500 and leaves the
  store as it was; an update of \<open>status\<close> or \<open>max_devices\<close> alone never moves \<open>expires_at\<close>.
  So no request to this route changes \<open>duration_hours\<close> or \<open>expires_at\<close> of a key.
\<close>

lemma update_with_duration_refused:
  "u_duration_hours u = Some dh \<Longrightarrow> updateKey flt now kid u d = (InternalError, d)"
  by (simp add: updateKey_def update_query_def split: option.splits)

lemma update_never_moves_expiry:
  "map expires_at (keys (snd (updateKey flt now kid u d))) = map expires_at (keys d)
   \<and> map duration_hours (keys (snd (updateKey flt now kid u d))) = map duration_hours (keys d)"
proof (cases "u_duration_hours u")
  case (Some dh)
  then show ?thesis by (simp add: update_with_duration_refused)
next
  case None
  then have "expires_at (apply_update now u k) = expires_at k
             \<and> duration_hours (apply_update now u k) = duration_hours k" for k
    by (simp add: apply_update_def Let_def split: option.splits)
  with None show ?thesis
    by (simp add: updateKey_def update_query_def comp_def if_distrib [of expires_at]
        if_distrib [of duration_hours] split: option.splits list.splits)
qed

text \<open>
  C8. An admin update of \<open>duration_hours\<close> is to recompute \<open>expires_at\<close> as the time of the
  update plus the new duration. On the store holding the one-hour key created at time 0
  (\<open>expires_at\<close> 3600000), the request \<open>{duration_hours: 2}\<close> for key 1 at time 5000000 is
  answered 500 by the catch block and the store is left as it was: \<open>duration_hours\<close> stays
  1 and \<open>expires_at\<close> stays 3600000 instead of becoming 5000000 + 2 * 3600000.
\<close>

theorem update_duration_misses_rebase:
  "update_query 5000000 1 ex_update ex_db = Inl (PgError ''42P08'')
   \<and> updateKey no_faults 5000000 1 ex_update ex_db = (InternalError, ex_db)
   \<and> http_status (fst (updateKey no_faults 5000000 1 ex_update ex_db)) = 500
   \<and> map duration_hours (keys (snd (updateKey no_faults 5000000 1 ex_update ex_db))) = [1]
   \<and> map expires_at (keys (snd (updateKey no_faults 5000000 1 ex_update ex_db))) = [3600000]
   \<and> map expires_at (keys (snd (updateKey no_faults 5000000 1 ex_update ex_db)))
       \<noteq> [5000000 + 2 * 3600000]"
  by (simp add: updateKey_def update_query_def ex_update_def no_faults_def ex_db_def ex_key_def
      InternalError_def fail_reply_def json_reply_def)

section \<open>Order of the expiry and status checks in /activateKey\<close>

text \<open>
  C3. For a well-formed request whose key is found with \<open>expires_at\<close> in the past, and with
  the SELECT and the expiry UPDATE going through, /activateKey answers KeyExpired
  whatever the stored status is; under no store fault at all does it answer KeyNotActive
  for such a key. Every row with the id of the key found then has status \<open>expired\<close>, and
  \<open>activation_expired\<close> is appended to the log unless the log INSERT fails.
\<close>

theorem activate_expiry_precedes_status:
  assumes "key req = Some k" "k \<noteq> []" "device_id req = Some dev"
    and "5 \<le> length dev" "length dev \<le> 255"
    and "flt SelKey = None" "flt UpdExpired = None"
    and "select_key (toUpperCase (trim k)) d = keyData # rest"
    and "now > expires_at keyData"
  shows "fst (activateKey flt now req d) = KeyExpired
       \<and> (\<forall>flt'. fst (activateKey flt' now req d) \<noteq> KeyNotActive)
       \<and> snd (activateKey flt now req d) =
           logKeyActivity flt now (id_col keyData) ''activation_expired'' req
             (update_expired (id_col keyData) d)
       \<and> (\<forall>k'\<in>set (keys (snd (activateKey flt now req d))).
             id_col k' = id_col keyData \<longrightarrow> status k' = ''expired'')
       \<and> (flt LogIns = None \<longrightarrow>
             map log_action (key_logs (snd (activateKey flt now req d)))
               = map log_action (key_logs d) @ [''activation_expired''])"
proof (intro conjI allI ballI impI)
  show r: "fst (activateKey flt now req d) = KeyExpired"
    using assms by (auto simp: activateKey_def activateKey_checks_def)
  show s: "snd (activateKey flt now req d) =
           logKeyActivity flt now (id_col keyData) ''activation_expired'' req
             (update_expired (id_col keyData) d)"
    using assms by (auto simp: activateKey_def activateKey_checks_def)
  show "fst (activateKey flt' now req d) \<noteq> KeyNotActive" for flt'
    using never_not_active_when_expired [OF assms(1,8,9)] .
  show "status k' = ''expired''"
    if "k' \<in> set (keys (snd (activateKey flt now req d)))" "id_col k' = id_col keyData" for k'
    using that by (simp add: s update_expired_status)
  show "map log_action (key_logs (snd (activateKey flt now req d)))
               = map log_action (key_logs d) @ [''activation_expired'']"
    if "flt LogIns = None"
    using that select_key_exists [OF assms(8)]
    by (simp add: s log_appended key_exists_update_expired)
qed

theorem activate_expiry_precedes_status_witness:
  "status (hd (keys ex_db_inactive)) = ''inactive''
   \<and> fst (activateKey no_faults 3600001 (ex_req ''device-A'') ex_db_inactive) = KeyExpired
   \<and> map status (keys (snd (activateKey no_faults 3600001 (ex_req ''device-A'') ex_db_inactive)))
       = [''expired'']
   \<and> map log_action (key_logs (snd (activateKey no_faults 3600001 (ex_req ''device-A'')
        ex_db_inactive))) = [''activation_expired'']"
proof -
  have h: "key (ex_req ''device-A'') = Some '' aaaaa-aaaaa-aaaaa-aaaaa-aaaaa ''"
      "'' aaaaa-aaaaa-aaaaa-aaaaa-aaaaa '' \<noteq> []"
      "device_id (ex_req ''device-A'') = Some ''device-A''"
      "5 \<le> length ''device-A''" "length ''device-A'' \<le> 255"
      "no_faults SelKey = None" "no_faults UpdExpired = None"
    by (simp_all add: ex_req_def no_faults_def)
  have e: "3600001 > expires_at (ex_key\<lparr>status := ''inactive''\<rparr>)"
    by (simp add: ex_key_def)
  note i = activate_expiry_precedes_status [OF h ex_lookup_inactive e]
  from i have a: "fst (activateKey no_faults 3600001 (ex_req ''device-A'') ex_db_inactive) = KeyExpired"
    by blast
  from i have b: "snd (activateKey no_faults 3600001 (ex_req ''device-A'') ex_db_inactive)
      = logKeyActivity no_faults 3600001 (id_col (ex_key\<lparr>status := ''inactive''\<rparr>))
          ''activation_expired'' (ex_req ''device-A'')
          (update_expired (id_col (ex_key\<lparr>status := ''inactive''\<rparr>)) ex_db_inactive)"
    by blast
  have c: "map status (keys (logKeyActivity no_faults 3600001 (id_col (ex_key\<lparr>status := ''inactive''\<rparr>))
          ''activation_expired'' (ex_req ''device-A'')
          (update_expired (id_col (ex_key\<lparr>status := ''inactive''\<rparr>)) ex_db_inactive)))
        = [''expired'']"
      "map log_action (key_logs (logKeyActivity no_faults 3600001
          (id_col (ex_key\<lparr>status := ''inactive''\<rparr>))
          ''activation_expired'' (ex_req ''device-A'')
          (update_expired (id_col (ex_key\<lparr>status := ''inactive''\<rparr>)) ex_db_inactive)))
        = [''activation_expired'']"
      "status (hd (keys ex_db_inactive)) = ''inactive''"
    by code_simp+
  from a b c show ?thesis by simp
qed

text \<open>
  The older copy of the handler decides the other way round: for the same inactive key
  past its expiry it answers \<open>Key is not active\<close> and writes nothing.
\<close>

lemma part000_status_precedes_expiry:
  assumes "key req = Some k" "k \<noteq> []" "device_id req = Some dev"
    and "5 \<le> length dev" "length dev \<le> 255" "flt SelKey = None"
    and "select_key (toUpperCase (trim k)) d = keyData # rest"
    and "status keyData \<noteq> ''active''"
  shows "activateKey_part000 flt now req d = (plain_error 400 ''Key is not active'', d)"
proof -
  from assms(4) have "dev \<noteq> []" by auto
  with assms show ?thesis by (simp add: activateKey_part000_def)
qed

lemma part000_inactive_expired_key:
  "activateKey_part000 no_faults 3600001 (ex_req ''device-A'') ex_db_inactive
     = (plain_error 400 ''Key is not active'', ex_db_inactive)"
  by code_simp

section \<open>The device limit for calls served one after the other\<close>

text \<open>
  (a) An /activateKey call for a device that holds no activation of the key found,
  while the key already has at least \<open>max_devices\<close> activation rows, never succeeds and
  leaves the activation rows and every \<open>used_devices\<close> counter as they were; when the
  request is well formed, the key is unexpired and active and the three SELECTs go
  through, the reply is DeviceLimitReached and the store is untouched.
  (b) Activate calls served one after the other, with any faults and clocks, keep the
  store constraints and the limit: from a store where every key has at most
  \<open>max_devices\<close> activation rows, every key still has at most \<open>max_devices\<close> rows and
  \<open>used_devices \<le> max_devices\<close> afterwards.
\<close>

lemma device_limit_sequential:
  "(key req = Some k \<and> device_id req = Some dev
      \<and> select_key (toUpperCase (trim k)) d = keyData # rest
      \<and> select_activation (id_col keyData) dev d = []
      \<and> count_activations (id_col keyData) d \<ge> max_devices keyData
     \<longrightarrow> \<not> success_reply (fst (activateKey flt now req d))
        \<and> key_activations (snd (activateKey flt now req d)) = key_activations d
        \<and> key_counts (snd (activateKey flt now req d)) = key_counts d
        \<and> (k \<noteq> [] \<and> 5 \<le> length dev \<and> length dev \<le> 255
             \<and> flt SelKey = None \<and> flt SelActivation = None \<and> flt CountAct = None
             \<and> \<not> now > expires_at keyData \<and> status keyData = ''active''
            \<longrightarrow> activateKey flt now req d = (DeviceLimitReached, d)))
   \<and> (wf_store d \<and> within_limit d
     \<longrightarrow> wf_store (activate_all calls d) \<and> within_limit (activate_all calls d)
        \<and> (\<forall>k\<in>set (keys (activate_all calls d)).
              count_activations (id_col k) (activate_all calls d) \<le> max_devices k
              \<and> used_devices k \<le> max_devices k))"
proof (intro conjI impI)
  assume h: "key req = Some k \<and> device_id req = Some dev
      \<and> select_key (toUpperCase (trim k)) d = keyData # rest
      \<and> select_activation (id_col keyData) dev d = []
      \<and> count_activations (id_col keyData) d \<ge> max_devices keyData"
  from limit_blocks [of req k dev d keyData rest flt now] h
  obtain r where r: "fst (activateKey_checks flt now req d) = Inl r" "\<not> success_reply r"
    by (cases "fst (activateKey_checks flt now req d)") auto
  then have a: "activateKey flt now req d = (r, snd (activateKey_checks flt now req d))"
    by (cases "activateKey_checks flt now req d") (simp add: activateKey_def)
  show "\<not> success_reply (fst (activateKey flt now req d))" by (simp add: a r)
  show "key_activations (snd (activateKey flt now req d)) = key_activations d"
    by (simp add: a checks_frame)
  show "key_counts (snd (activateKey flt now req d)) = key_counts d"
    by (simp add: a checks_frame)
  assume "k \<noteq> [] \<and> 5 \<le> length dev \<and> length dev \<le> 255
             \<and> flt SelKey = None \<and> flt SelActivation = None \<and> flt CountAct = None
             \<and> \<not> now > expires_at keyData \<and> status keyData = ''active''"
  with h show "activateKey flt now req d = (DeviceLimitReached, d)"
    using limit_reply [of req k dev d keyData rest flt now] by blast
next
  assume "wf_store d \<and> within_limit d"
  then have i: "wf_store (activate_all calls d)" "within_limit (activate_all calls d)"
    using activate_all_invariant [of d calls] by simp_all
  from i show "wf_store (activate_all calls d)" "within_limit (activate_all calls d)" .
  show "\<forall>k\<in>set (keys (activate_all calls d)).
              count_activations (id_col k) (activate_all calls d) \<le> max_devices k
              \<and> used_devices k \<le> max_devices k"
    using i by (simp add: wf_store_def within_limit_def)
qed

lemma device_limit_sequential_example:
  "activateKey no_faults 20 (ex_req ''device-B'') ex_db_activated
       = (DeviceLimitReached, ex_db_activated)
   \<and> map used_devices (keys (activate_all [(no_faults, 10, ex_req ''device-A''),
                                  (no_faults, 20, ex_req ''device-B'')] ex_db)) = [1]
   \<and> within_limit (activate_all [(no_faults, 10, ex_req ''device-A''),
                                  (no_faults, 20, ex_req ''device-B'')] ex_db)"
  by code_simp

section \<open>The device limit under concurrent calls\<close>

text \<open>
  C1. The number of activation rows of a key is to stay at most \<open>max_devices\<close>, also when
  several /activateKey calls run at the same time. The handler reads the COUNT before
  its transaction and without a lock, and the transaction does not read it again. From
  the empty store, /generateKey issues a key for one device; the handlers for device-A
  and device-B both run their checks on that store, both read the count 0 and pass the
  limit, and then both commit. Both calls answer \<open>success: true\<close>, and the key with
  \<open>max_devices\<close> 1 ends with two activation rows and \<open>used_devices\<close> 2.
\<close>

theorem concurrent_activations_exceed_limit:
  "run [ex_issue] init_db = ex_db
   \<and> activateKey_checks no_faults 10 (ex_req ''device-A'') ex_db
       = (Inr (ex_key, ''device-A'', 0), ex_db)
   \<and> activateKey_checks no_faults 10 (ex_req ''device-B'') ex_db
       = (Inr (ex_key, ''device-B'', 0), ex_db)
   \<and> success_reply (fst (activateKey_commit no_faults 11 (ex_req ''device-A'') ex_key
        ''device-A'' 0 ex_db))
   \<and> success_reply (fst (activateKey_commit no_faults 12 (ex_req ''device-B'') ex_key
        ''device-B'' 0 (run [ex_issue, ex_commit_A] init_db)))
   \<and> map max_devices (keys (run ex_race init_db)) = [1]
   \<and> map used_devices (keys (run ex_race init_db)) = [2]
   \<and> map act_device_id (key_activations (run ex_race init_db)) = [''device-A'', ''device-B'']
   \<and> count_activations 1 (run ex_race init_db) = 2"
  by code_simp

lemma race_breaks_within_limit: "\<not> within_limit (run ex_race init_db)"
  by code_simp

text \<open>
  The limit can also fall below the rows already there: PUT /admin/keys/:id writes
  \<open>max_devices\<close> without looking at the activation table.
\<close>

lemma admin_update_lowers_limit:
  "within_limit ex_db_activated
   \<and> map max_devices (keys (step (UpdateKey no_faults 30 1 ex_lower) ex_db_activated)) = [0]
   \<and> count_activations 1 (step (UpdateKey no_faults 30 1 ex_lower) ex_db_activated) = 1
   \<and> \<not> within_limit (step (UpdateKey no_faults 30 1 ex_lower) ex_db_activated)"
  by code_simp

section \<open>The cached counter\<close>

text \<open>
  C10. From the empty store of \<open>initDatabase\<close>, after any sequence of completed operations
  (including second halves of /activateKey handlers that ran their checks on an older
  store), the store constraints hold and every key's \<open>used_devices\<close> equals the number
  of its key_activations rows. The transaction of /activateKey either leaves both
  tables as they were or appends the activation row and increments the counter; and an
  operation removes an activation row only when the key it refers to is gone afterwards.
\<close>

theorem counter_matches_activation_rows:
  "wf_store (run ops init_db)
   \<and> (\<forall>k\<in>set (keys (run ops init_db)).
         used_devices k = count_activations (id_col k) (run ops init_db))
   \<and> ((keys (snd (activateKey_commit flt now req kd dev n d)) = keys d
         \<and> key_activations (snd (activateKey_commit flt now req kd dev n d)) = key_activations d)
       \<or> (keys (snd (activateKey_commit flt now req kd dev n d)) = keys (update_used (id_col kd) d)
         \<and> key_activations (snd (activateKey_commit flt now req kd dev n d))
              = key_activations d @ [\<lparr>act_key_id = id_col kd, act_device_id = dev,
                   act_ip_address = ip req, act_created_at = now\<rparr>]))
   \<and> (wf_store d \<and> a \<in> set (key_activations d) \<and> a \<notin> set (key_activations (step x d))
        \<longrightarrow> \<not> key_exists (act_key_id a) (step x d))"
proof (intro conjI impI)
  show w: "wf_store (run ops init_db)" by (simp add: wf_run wf_init)
  then show "\<forall>k\<in>set (keys (run ops init_db)).
         used_devices k = count_activations (id_col k) (run ops init_db)"
    by (simp add: wf_store_def)
  show "(keys (snd (activateKey_commit flt now req kd dev n d)) = keys d
         \<and> key_activations (snd (activateKey_commit flt now req kd dev n d)) = key_activations d)
       \<or> (keys (snd (activateKey_commit flt now req kd dev n d)) = keys (update_used (id_col kd) d)
         \<and> key_activations (snd (activateKey_commit flt now req kd dev n d))
              = key_activations d @ [\<lparr>act_key_id = id_col kd, act_device_id = dev,
                   act_ip_address = ip req, act_created_at = now\<rparr>])"
    by (rule commit_shape)
next
  assume "wf_store d \<and> a \<in> set (key_activations d) \<and> a \<notin> set (key_activations (step x d))"
  then show "\<not> key_exists (act_key_id a) (step x d)"
    using step_removes_only_with_key [of d a x] by blast
qed


theorem counter_matches_activation_rows_witness:
  "run ex_ops init_db = ex_db_activated
   \<and> map used_devices (keys ex_db_activated) = [1]
   \<and> length (key_activations ex_db_activated) = 1
   \<and> used_devices (hd (keys (run ex_ops init_db)))
        = count_activations (id_col (hd (keys (run ex_ops init_db)))) (run ex_ops init_db)
   \<and> wf_store ex_db_activated
   \<and> hd (key_activations ex_db_activated) \<in> set (key_activations ex_db_activated)
   \<and> hd (key_activations ex_db_activated)
        \<notin> set (key_activations (step (DeleteKey no_faults 1) ex_db_activated))
   \<and> \<not> key_exists (act_key_id (hd (key_activations ex_db_activated)))
          (step (DeleteKey no_faults 1) ex_db_activated)"
proof -
  have e: "run ex_ops init_db = ex_db_activated" by code_simp
  have k: "hd (keys (run ex_ops init_db)) \<in> set (keys (run ex_ops init_db))" by code_simp
  have u: "map used_devices (keys ex_db_activated) = [1]"
    "length (key_activations ex_db_activated) = 1" by code_simp+
  have m: "hd (key_activations ex_db_activated) \<in> set (key_activations ex_db_activated)"
    "hd (key_activations ex_db_activated)
        \<notin> set (key_activations (step (DeleteKey no_faults 1) ex_db_activated))"
    by code_simp+
  show ?thesis
    using counter_matches_activation_rows [where ops = ex_ops and d = ex_db_activated
        and a = "hd (key_activations ex_db_activated)" and x = "DeleteKey no_faults 1"]
      e u m k
    by metis
qed

section \<open>Repeating /activateKey for an activated device\<close>

text \<open>
  C2. (a) When the key found already has an activation row for the device of the request,
  /activateKey never adds an activation row and never changes a \<open>used_devices\<close> counter,
  whatever else happens; when moreover the request is well formed, the key is unexpired
  and active and the two SELECTs go through, the reply is the 200 success
  \<open>Device already activated\<close>, the only write is the log entry \<open>reactivated\<close> (appended
  unless the logging itself fails).
  (b) After any /activateKey call that answered with success, a second call with the
  same request, made while the key is not past \<open>expires_at\<close> and with its two SELECTs
  going through, answers \<open>Device already activated\<close> and leaves the activation rows
  and the counters as the first call left them.
\<close>

theorem activate_idempotent:
  "(key req = Some k \<and> device_id req = Some dev
      \<and> select_key (toUpperCase (trim k)) d = keyData # rest
      \<and> select_activation (id_col keyData) dev d \<noteq> []
     \<longrightarrow> key_activations (snd (activateKey flt now req d)) = key_activations d
        \<and> key_counts (snd (activateKey flt now req d)) = key_counts d
        \<and> (k \<noteq> [] \<and> 5 \<le> length dev \<and> length dev \<le> 255
             \<and> flt SelKey = None \<and> flt SelActivation = None
             \<and> \<not> now > expires_at keyData \<and> status keyData = ''active''
            \<longrightarrow> activateKey flt now req d
                  = (AlreadyActivated keyData,
                     logKeyActivity flt now (id_col keyData) ''reactivated'' req d)
               \<and> success_reply (AlreadyActivated keyData)
               \<and> http_status (AlreadyActivated keyData) = 200
               \<and> (flt LogIns = None
                    \<longrightarrow> map log_action (key_logs (snd (activateKey flt now req d)))
                          = map log_action (key_logs d) @ [''reactivated''])))
   \<and> (success_reply (fst (activateKey flt now req d)) \<and> lookup_key req d = Some kd
        \<and> \<not> now' > expires_at kd \<and> flt' SelKey = None \<and> flt' SelActivation = None
     \<longrightarrow> fst (activateKey flt' now' req (snd (activateKey flt now req d))) = AlreadyActivated kd
        \<and> key_activations (snd (activateKey flt' now' req (snd (activateKey flt now req d))))
             = key_activations (snd (activateKey flt now req d))
        \<and> key_counts (snd (activateKey flt' now' req (snd (activateKey flt now req d))))
             = key_counts (snd (activateKey flt now req d)))"
proof (intro conjI impI)
  assume h: "key req = Some k \<and> device_id req = Some dev
      \<and> select_key (toUpperCase (trim k)) d = keyData # rest
      \<and> select_activation (id_col keyData) dev d \<noteq> []"
  then show "key_activations (snd (activateKey flt now req d)) = key_activations d"
    and "key_counts (snd (activateKey flt now req d)) = key_counts d"
    using reactivate_frame [of req k dev d keyData rest flt now] by simp_all
  assume g: "k \<noteq> [] \<and> 5 \<le> length dev \<and> length dev \<le> 255
             \<and> flt SelKey = None \<and> flt SelActivation = None
             \<and> \<not> now > expires_at keyData \<and> status keyData = ''active''"
  with h show r: "activateKey flt now req d
                  = (AlreadyActivated keyData,
                     logKeyActivity flt now (id_col keyData) ''reactivated'' req d)"
    using reactivate_reply [of req k dev d keyData rest flt now] by simp
  show "success_reply (AlreadyActivated keyData)" by simp
  show "http_status (AlreadyActivated keyData) = 200"
    by (simp add: AlreadyActivated_def json_reply_def)
  assume "flt LogIns = None"
  with h show "map log_action (key_logs (snd (activateKey flt now req d)))
                          = map log_action (key_logs d) @ [''reactivated'']"
    using select_key_exists [of "toUpperCase (trim k)" d keyData rest]
    by (simp add: r log_appended)
next
  let ?d1 = "snd (activateKey flt now req d)"
  assume h: "success_reply (fst (activateKey flt now req d)) \<and> lookup_key req d = Some kd
        \<and> \<not> now' > expires_at kd \<and> flt' SelKey = None \<and> flt' SelActivation = None"
  from activate_success_state [of flt now req d] h
  obtain k dev kd0 rest0 kd' rest' where
    f: "key req = Some k" "k \<noteq> []" "device_id req = Some dev"
       "5 \<le> length dev" "length dev \<le> 255"
       "select_key (toUpperCase (trim k)) d = kd0 # rest0"
       "select_key (toUpperCase (trim k)) ?d1 = kd' # rest'"
       "status kd' = ''active''" "expires_at kd' = expires_at kd0"
       "duration_hours kd' = duration_hours kd0" "id_col kd' = id_col kd0"
       "select_activation (id_col kd') dev ?d1 \<noteq> []"
    by blast
  from h f(1,6) have kd: "kd0 = kd" by (simp add: lookup_key_def)
  from h f(9) kd have ne: "\<not> now' > expires_at kd'" by simp
  have same: "AlreadyActivated kd' = AlreadyActivated kd"
    using f(9,10) kd by (simp add: AlreadyActivated_def)
  from reactivate_reply [OF f(1,3,7,12) f(2,4,5) _ _ ne f(8), of flt'] h
  have "activateKey flt' now' req ?d1
          = (AlreadyActivated kd', logKeyActivity flt' now' (id_col kd') ''reactivated'' req ?d1)"
    by simp
  then show "fst (activateKey flt' now' req ?d1) = AlreadyActivated kd"
    and "key_activations (snd (activateKey flt' now' req ?d1)) = key_activations ?d1"
    and "key_counts (snd (activateKey flt' now' req ?d1)) = key_counts ?d1"
    by (simp_all add: same)
qed

theorem activate_idempotent_witness:
  "select_activation (id_col (ex_key\<lparr>used_devices := 1\<rparr>)) ''device-A'' ex_db_activated \<noteq> []
   \<and> activateKey no_faults 20 (ex_req ''device-A'') ex_db_activated
       = (AlreadyActivated (ex_key\<lparr>used_devices := 1\<rparr>),
          logKeyActivity no_faults 20 (id_col (ex_key\<lparr>used_devices := 1\<rparr>)) ''reactivated''
            (ex_req ''device-A'') ex_db_activated)
   \<and> key_activations (snd (activateKey no_faults 20 (ex_req ''device-A'') ex_db_activated))
       = key_activations ex_db_activated
   \<and> map log_action (key_logs (snd (activateKey no_faults 20 (ex_req ''device-A'') ex_db_activated)))
       = map log_action (key_logs ex_db_activated) @ [''reactivated'']
   \<and> success_reply (fst (activateKey no_faults 10 (ex_req ''device-A'') ex_db))
   \<and> fst (activateKey no_faults 20 (ex_req ''device-A'')
          (snd (activateKey no_faults 10 (ex_req ''device-A'') ex_db))) = AlreadyActivated ex_key"
proof -
  have r: "key (ex_req ''device-A'') = Some '' aaaaa-aaaaa-aaaaa-aaaaa-aaaaa ''"
      "device_id (ex_req ''device-A'') = Some ''device-A''"
    by (simp_all add: ex_req_def)
  have s: "select_activation (id_col (ex_key\<lparr>used_devices := 1\<rparr>)) ''device-A'' ex_db_activated \<noteq> []"
    by code_simp
  have o: "'' aaaaa-aaaaa-aaaaa-aaaaa-aaaaa '' \<noteq> []" "5 \<le> length ''device-A''"
      "length ''device-A'' \<le> 255" "no_faults SelKey = None" "no_faults SelActivation = None"
      "no_faults LogIns = None" "\<not> 20 > expires_at (ex_key\<lparr>used_devices := 1\<rparr>)"
      "status (ex_key\<lparr>used_devices := 1\<rparr>) = ''active''" "\<not> 20 > expires_at ex_key"
    by (simp_all add: no_faults_def ex_key_def)
  have f: "success_reply (fst (activateKey no_faults 10 (ex_req ''device-A'') ex_db))"
      "lookup_key (ex_req ''device-A'') ex_db = Some ex_key"
    by code_simp+
  note i1 = activate_idempotent [where req = "ex_req ''device-A''"
        and k = "'' aaaaa-aaaaa-aaaaa-aaaaa-aaaaa ''" and dev = "''device-A''"
        and d = ex_db_activated and keyData = "ex_key\<lparr>used_devices := 1\<rparr>" and rest = "[]"
        and flt = no_faults and now = 20 and kd = ex_key and now' = 20 and flt' = no_faults,
        THEN conjunct1]
  note i2 = activate_idempotent [where req = "ex_req ''device-A''"
        and k = "'' aaaaa-aaaaa-aaaaa-aaaaa-aaaaa ''" and dev = "''device-A''"
        and d = ex_db and keyData = ex_key and rest = "[]" and flt = no_faults
        and now = 10 and kd = ex_key and now' = 20 and flt' = no_faults, THEN conjunct2]
  from i1 r s o ex_activated_lookup
  have p1: "activateKey no_faults 20 (ex_req ''device-A'') ex_db_activated
       = (AlreadyActivated (ex_key\<lparr>used_devices := 1\<rparr>),
          logKeyActivity no_faults 20 (id_col (ex_key\<lparr>used_devices := 1\<rparr>)) ''reactivated''
            (ex_req ''device-A'') ex_db_activated)
   \<and> key_activations (snd (activateKey no_faults 20 (ex_req ''device-A'') ex_db_activated))
       = key_activations ex_db_activated
   \<and> map log_action (key_logs (snd (activateKey no_faults 20 (ex_req ''device-A'') ex_db_activated)))
       = map log_action (key_logs ex_db_activated) @ [''reactivated'']"
    by blast
  from i2 f o
  have p2: "fst (activateKey no_faults 20 (ex_req ''device-A'')
          (snd (activateKey no_faults 10 (ex_req ''device-A'') ex_db))) = AlreadyActivated ex_key"
    by blast
  from p1 p2 s f(1) show ?thesis by blast
qed

section \<open>The decision of /verifyKey\<close>

text \<open>
  The join of /verifyKey finds an activation exactly when the activation table holds a
  row with the id of the key and the device_id of the request.
\<close>

lemma select_activation_nonempty:
  "(select_activation kid dev d \<noteq> [])
     = (\<exists>a\<in>set (key_activations d). act_key_id a = kid \<and> act_device_id a = dev)"
  by (auto simp: select_activation_def filter_empty_conv)

lemma ex2_activated_lookup:
  "select_key (toUpperCase (trim '' aaaaa-aaaaa-aaaaa-aaaaa-aaaaa '')) ex_db2_activated
     = [ex_key2\<lparr>used_devices := 1\<rparr>]"
  by code_simp

text \<open>
  C5. The reply of /verifyKey carries \<open>valid: true\<close> exactly when the request has a
  non-empty key and device_id, the key SELECT and the COUNT go through, the key is
  found, its status is \<open>active\<close>, the activation table holds a row with the id of this
  key and exactly the device_id of the request, and the clock is not past \<open>expires_at\<close>.
  /verifyKey never changes the activation rows, so for a device without such a row it
  never answers \<open>valid: true\<close>, whatever other devices hold the key and whatever the
  remaining capacity of the key.
\<close>

theorem verify_valid_exactly_when:
  "valid_true (fst (verifyKey flt now req d))
     = (\<exists>k dev keyData rest. key req = Some k \<and> k \<noteq> [] \<and> device_id req = Some dev \<and> dev \<noteq> []
          \<and> flt SelKey = None \<and> flt CountAct = None
          \<and> select_key (toUpperCase (trim k)) d = keyData # rest
          \<and> status keyData = ''active''
          \<and> (\<exists>a\<in>set (key_activations d).
                 act_key_id a = id_col keyData \<and> act_device_id a = dev)
          \<and> \<not> now > expires_at keyData)
   \<and> key_activations (snd (verifyKey flt now req d)) = key_activations d
   \<and> (key req = Some k' \<and> device_id req = Some dev'
        \<and> select_key (toUpperCase (trim k')) d = keyData' # rest'
        \<and> \<not> (\<exists>a\<in>set (key_activations d).
                 act_key_id a = id_col keyData' \<and> act_device_id a = dev')
       \<longrightarrow> \<not> valid_true (fst (verifyKey flt now req d)))"
proof (intro conjI impI)
  show iff: "valid_true (fst (verifyKey flt now req d))
     = (\<exists>k dev keyData rest. key req = Some k \<and> k \<noteq> [] \<and> device_id req = Some dev \<and> dev \<noteq> []
          \<and> flt SelKey = None \<and> flt CountAct = None
          \<and> select_key (toUpperCase (trim k)) d = keyData # rest
          \<and> status keyData = ''active''
          \<and> (\<exists>a\<in>set (key_activations d).
                 act_key_id a = id_col keyData \<and> act_device_id a = dev)
          \<and> \<not> now > expires_at keyData)"
    unfolding verify_valid_iff select_activation_nonempty by (rule refl)
  show "key_activations (snd (verifyKey flt now req d)) = key_activations d"
    by (simp add: verifyKey_frame)
  assume "key req = Some k' \<and> device_id req = Some dev'
        \<and> select_key (toUpperCase (trim k')) d = keyData' # rest'
        \<and> \<not> (\<exists>a\<in>set (key_activations d).
                 act_key_id a = id_col keyData' \<and> act_device_id a = dev')"
  then show "\<not> valid_true (fst (verifyKey flt now req d))"
    unfolding iff by auto
qed

theorem verify_valid_exactly_when_witness:
  "map act_key_id (key_activations ex_db2_activated) = [1]
   \<and> map act_device_id (key_activations ex_db2_activated) = [''device-A'']
   \<and> count_activations 1 ex_db2_activated < max_devices (hd (keys ex_db2_activated))
   \<and> \<not> valid_true (fst (verifyKey no_faults 20 (ex_req ''device-B'') ex_db2_activated))
   \<and> valid_true (fst (verifyKey no_faults 20 (ex_req ''device-A'') ex_db2_activated))
   \<and> key_activations ex_db = []
   \<and> \<not> valid_true (fst (verifyKey no_faults 10 (ex_req ''device-A'') ex_db))"
proof -
  have r: "key (ex_req ''device-A'') = Some '' aaaaa-aaaaa-aaaaa-aaaaa-aaaaa ''"
      "device_id (ex_req ''device-A'') = Some ''device-A''"
      "key (ex_req ''device-B'') = Some '' aaaaa-aaaaa-aaaaa-aaaaa-aaaaa ''"
      "device_id (ex_req ''device-B'') = Some ''device-B''"
    by (simp_all add: ex_req_def)
  have s: "map act_key_id (key_activations ex_db2_activated) = [1]"
      "map act_device_id (key_activations ex_db2_activated) = [''device-A'']"
      "count_activations 1 ex_db2_activated < max_devices (hd (keys ex_db2_activated))"
      "key_activations ex_db = []"
    by code_simp+
  have nb: "\<not> (\<exists>a\<in>set (key_activations ex_db2_activated).
                 act_key_id a = id_col (ex_key2\<lparr>used_devices := 1\<rparr>)
                 \<and> act_device_id a = ''device-B'')"
    by code_simp
  have ya: "\<exists>a\<in>set (key_activations ex_db2_activated).
                 act_key_id a = id_col (ex_key2\<lparr>used_devices := 1\<rparr>)
                 \<and> act_device_id a = ''device-A''"
    by code_simp
  have n0: "\<not> (\<exists>a\<in>set (key_activations ex_db).
                 act_key_id a = id_col ex_key \<and> act_device_id a = ''device-A'')"
    by code_simp
  have o: "'' aaaaa-aaaaa-aaaaa-aaaaa-aaaaa '' \<noteq> []" "''device-A'' \<noteq> []"
      "no_faults SelKey = None" "no_faults CountAct = None"
      "\<not> 20 > expires_at (ex_key2\<lparr>used_devices := 1\<rparr>)"
      "status (ex_key2\<lparr>used_devices := 1\<rparr>) = ''active''"
    by (simp_all add: no_faults_def ex_key_def ex_key2_def)
  note i0 = verify_valid_exactly_when [where flt = no_faults and now = 10
      and req = "ex_req ''device-A''" and d = ex_db
      and k' = "'' aaaaa-aaaaa-aaaaa-aaaaa-aaaaa ''" and dev' = "''device-A''"
      and keyData' = ex_key and rest' = "[]", THEN conjunct2, THEN conjunct2]
  note i1 = verify_valid_exactly_when [where flt = no_faults and now = 20
      and req = "ex_req ''device-B''" and d = ex_db2_activated
      and k' = "'' aaaaa-aaaaa-aaaaa-aaaaa-aaaaa ''" and dev' = "''device-B''"
      and keyData' = "ex_key2\<lparr>used_devices := 1\<rparr>" and rest' = "[]",
      THEN conjunct2, THEN conjunct2]
  note i2 = verify_valid_exactly_when [where flt = no_faults and now = 20
      and req = "ex_req ''device-A''" and d = ex_db2_activated
      and k' = "'' aaaaa-aaaaa-aaaaa-aaaaa-aaaaa ''" and dev' = "''device-A''"
      and keyData' = ex_key and rest' = "[]", THEN conjunct1]
  from i0 r(1,2) n0 ex_lookup
  have p0: "\<not> valid_true (fst (verifyKey no_faults 10 (ex_req ''device-A'') ex_db))" by blast
  from i1 r(3,4) nb ex2_activated_lookup
  have p1: "\<not> valid_true (fst (verifyKey no_faults 20 (ex_req ''device-B'') ex_db2_activated))"
    by blast
  from r(1,2) ya o ex2_activated_lookup
  have "\<exists>k dev keyData rest. key (ex_req ''device-A'') = Some k \<and> k \<noteq> []
          \<and> device_id (ex_req ''device-A'') = Some dev \<and> dev \<noteq> []
          \<and> no_faults SelKey = None \<and> no_faults CountAct = None
          \<and> select_key (toUpperCase (trim k)) ex_db2_activated = keyData # rest
          \<and> status keyData = ''active''
          \<and> (\<exists>a\<in>set (key_activations ex_db2_activated).
                 act_key_id a = id_col keyData \<and> act_device_id a = dev)
          \<and> \<not> 20 > expires_at keyData"
    by blast
  with i2 have p2: "valid_true (fst (verifyKey no_faults 20 (ex_req ''device-A'') ex_db2_activated))"
    by blast
  from p0 p1 p2 s show ?thesis by blast
qed

section \<open>What /verifyKey writes\<close>

text \<open>
  C9. When the key looked up by /verifyKey is not past \<open>expires_at\<close> (or no key is found),
  the call leaves the keys table, the activation rows and the id sequence as they are;
  the log is unchanged or extended by one entry, \<open>verified\<close> or \<open>verification_failed\<close>.
  When the log INSERT fails, nothing at all is written and the reply is the one the call
  gives when the INSERT works.
\<close>

theorem verify_writes_only_the_log:
  "(case lookup_key req d of None \<Rightarrow> True | Some kd \<Rightarrow> \<not> now > expires_at kd)
   \<longrightarrow> keys (snd (verifyKey flt now req d)) = keys d
      \<and> key_activations (snd (verifyKey flt now req d)) = key_activations d
      \<and> keys_id_seq (snd (verifyKey flt now req d)) = keys_id_seq d
      \<and> (key_logs (snd (verifyKey flt now req d)) = key_logs d
          \<or> (\<exists>e. key_logs (snd (verifyKey flt now req d)) = key_logs d @ [e]
                \<and> log_action e \<in> {''verified'', ''verification_failed''}))
      \<and> (flt LogIns \<noteq> None
          \<longrightarrow> snd (verifyKey flt now req d) = d
             \<and> fst (verifyKey flt now req d) = fst (verifyKey (flt(LogIns := None)) now req d))"
proof (intro impI conjI)
  assume h: "case lookup_key req d of None \<Rightarrow> True | Some kd \<Rightarrow> \<not> now > expires_at kd"
  from verify_frame_ok [OF h, of flt]
  show "keys (snd (verifyKey flt now req d)) = keys d"
    and "key_logs (snd (verifyKey flt now req d)) = key_logs d
          \<or> (\<exists>e. key_logs (snd (verifyKey flt now req d)) = key_logs d @ [e]
                \<and> log_action e \<in> {''verified'', ''verification_failed''})"
    by simp_all
  show "key_activations (snd (verifyKey flt now req d)) = key_activations d"
    and "keys_id_seq (snd (verifyKey flt now req d)) = keys_id_seq d"
    by (simp_all add: verifyKey_frame)
  assume "flt LogIns \<noteq> None"
  from verify_log_failure_swallowed [where flt = flt, OF h this]
  show "snd (verifyKey flt now req d) = d"
    and "fst (verifyKey flt now req d) = fst (verifyKey (flt(LogIns := None)) now req d)"
    by simp_all
qed

theorem verify_writes_only_the_log_witness:
  "lookup_key (ex_req ''device-A'') ex_db_activated = Some (ex_key\<lparr>used_devices := 1\<rparr>)
   \<and> \<not> 20 > expires_at (ex_key\<lparr>used_devices := 1\<rparr>)
   \<and> keys (snd (verifyKey no_faults 20 (ex_req ''device-A'') ex_db_activated)) = keys ex_db_activated
   \<and> key_activations (snd (verifyKey no_faults 20 (ex_req ''device-A'') ex_db_activated))
        = key_activations ex_db_activated
   \<and> map log_action (key_logs (snd (verifyKey no_faults 20 (ex_req ''device-A'') ex_db_activated)))
        = [''activated'', ''verified'']
   \<and> log_down LogIns \<noteq> None
   \<and> snd (verifyKey log_down 20 (ex_req ''device-A'') ex_db_activated) = ex_db_activated
   \<and> fst (verifyKey log_down 20 (ex_req ''device-A'') ex_db_activated)
        = fst (verifyKey (log_down(LogIns := None)) 20 (ex_req ''device-A'') ex_db_activated)"
proof -
  have l: "lookup_key (ex_req ''device-A'') ex_db_activated = Some (ex_key\<lparr>used_devices := 1\<rparr>)"
    by code_simp
  have e: "\<not> 20 > expires_at (ex_key\<lparr>used_devices := 1\<rparr>)" by (simp add: ex_key_def)
  have h: "case lookup_key (ex_req ''device-A'') ex_db_activated of None \<Rightarrow> True
           | Some kd \<Rightarrow> \<not> 20 > expires_at kd"
    unfolding l using e by simp
  have f: "log_down LogIns \<noteq> None" by (simp add: log_down_def)
  have g: "map log_action (key_logs (snd (verifyKey no_faults 20 (ex_req ''device-A'') ex_db_activated)))
        = [''activated'', ''verified'']"
    by code_simp
  note i1 = verify_writes_only_the_log [where flt = no_faults and now = 20
      and req = "ex_req ''device-A''" and d = ex_db_activated, rule_format, OF h]
  note i2 = verify_writes_only_the_log [where flt = log_down and now = 20
      and req = "ex_req ''device-A''" and d = ex_db_activated, rule_format, OF h]
  from i1 i2 l e f g show ?thesis by blast
qed

section \<open>Key issuance: the retry loop\<close>

text \<open>
  With the key string of every round already taken, all five rounds of /generateKey
  collide and the reply is 500 \<open>Failed to generate unique key\<close>, not 409.
\<close>

theorem generation_exhausted_counterexample:
  "collides no_faults ex_rnd ex_db 0 \<and> collides no_faults ex_rnd ex_db 1
   \<and> collides no_faults ex_rnd ex_db 2 \<and> collides no_faults ex_rnd ex_db 3
   \<and> collides no_faults ex_rnd ex_db 4
   \<and> fst (generateKey_route no_faults ex_rnd 10 ex_gen ex_db) = GenerationFailed
   \<and> http_status (fst (generateKey_route no_faults ex_rnd 10 ex_gen ex_db)) = 500
   \<and> http_status (fst (generateKey_route no_faults ex_rnd 10 ex_gen ex_db)) \<noteq> 409"
  by code_simp

text \<open>
  C7 (as the code has it). For a positive \<open>duration_hours\<close>, /generateKey runs at most the
  five rounds 0..4: when every round meets a uniqueness conflict (23505) the reply is
  HTTP 500 \<open>Failed to generate unique key\<close> and no row is written; when rounds before
  \<open>j < 5\<close> conflict and round \<open>j\<close> finds a free key string, the key is inserted and
  returned; when rounds before \<open>j < 5\<close> conflict and round \<open>j\<close> meets a store error other
  than 23505, the reply is at once HTTP 500 \<open>Internal server error\<close>, no later round runs
  and no row is written.
\<close>

theorem generation_retries_then_500:
  "0 < requested_duration req \<longrightarrow>
     ((\<forall>i<5. collides flt rnd d i)
        \<longrightarrow> fst (generateKey_route flt rnd now req d) = GenerationFailed
           \<and> http_status GenerationFailed = 500
           \<and> same_rows (snd (generateKey_route flt rnd now req d)) d)
   \<and> (j < 5 \<and> (\<forall>i<j. collides flt rnd d i) \<and> flt (InsKey j) = None
        \<and> select_key (units (generateKey (rnd j))) d = []
        \<longrightarrow> (\<exists>row. fst (generateKey_route flt rnd now req d) = Generated row
                \<and> key_string row = generateKey (rnd j)
                \<and> keys (snd (generateKey_route flt rnd now req d)) = keys d @ [row]))
   \<and> (j < 5 \<and> (\<forall>i<j. collides flt rnd d i) \<and> flt (InsKey j) = Some e
        \<and> code e \<noteq> ''23505''
        \<longrightarrow> fst (generateKey_route flt rnd now req d) = InternalError
           \<and> http_status InternalError = 500
           \<and> same_rows (snd (generateKey_route flt rnd now req d)) d)"
proof (intro impI conjI)
  let ?md = "case g_max_devices req of None \<Rightarrow> 10 | Some x \<Rightarrow> x"
  let ?st = "case g_status req of None \<Rightarrow> ''active'' | Some x \<Rightarrow> x"
  let ?dh = "requested_duration req"
  assume pos: "0 < requested_duration req"
  note route = route_attempts [OF pos, of flt rnd now d]
  {
    assume "\<forall>i<5. collides flt rnd d i"
    then have "\<forall>i\<in>set [0..<5]. collides flt rnd d i" by simp
    from attempts_prefix [OF this, of now ?dh ?md ?st "[]"]
    obtain d' where "same_rows d' d"
      "generate_attempts flt rnd now ?dh ?md ?st [0..<5] d
         = generate_attempts flt rnd now ?dh ?md ?st [] d'" by auto
    then show "fst (generateKey_route flt rnd now req d) = GenerationFailed"
      and "same_rows (snd (generateKey_route flt rnd now req d)) d"
      by (simp_all add: route)
    show "http_status GenerationFailed = 500"
      by (simp add: GenerationFailed_def fail_reply_def json_reply_def)
  }
  {
    assume h: "j < 5 \<and> (\<forall>i<j. collides flt rnd d i) \<and> flt (InsKey j) = None
        \<and> select_key (units (generateKey (rnd j))) d = []"
    then have "\<forall>i\<in>set [0..<j]. collides flt rnd d i" by simp
    from attempts_prefix [OF this, of now ?dh ?md ?st "j # [Suc j..<5]"] h
    obtain d' where d': "same_rows d' d"
      "generate_attempts flt rnd now ?dh ?md ?st [0..<5] d
         = generate_attempts flt rnd now ?dh ?md ?st (j # [Suc j..<5]) d'"
      by (auto simp: rounds_split [of j])
    from d'(1) h have fresh: "select_key (units (generateKey (rnd j))) d' = []"
      by (simp add: same_rows_def select_key_def)
    let ?row = "\<lparr>id_col = keys_id_seq d', key_string = generateKey (rnd j), duration_hours = ?dh,
                   max_devices = ?md, used_devices = 0, created_at = now,
                   expires_at = now + ?dh * 60 * 60 * 1000, status = ?st\<rparr>"
    from fresh h have "generate_attempts flt rnd now ?dh ?md ?st (j # [Suc j..<5]) d'
        = (Generated ?row, d'\<lparr>keys_id_seq := keys_id_seq d' + 1, keys := keys d' @ [?row]\<rparr>)"
      by (simp add: insert_key_def Let_def)
    with d' have "fst (generateKey_route flt rnd now req d) = Generated ?row
                \<and> key_string ?row = generateKey (rnd j)
                \<and> keys (snd (generateKey_route flt rnd now req d)) = keys d @ [?row]"
      by (simp add: route same_rows_def)
    then show "\<exists>row. fst (generateKey_route flt rnd now req d) = Generated row
                \<and> key_string row = generateKey (rnd j)
                \<and> keys (snd (generateKey_route flt rnd now req d)) = keys d @ [row]"
      by blast
  }
  {
    assume h: "j < 5 \<and> (\<forall>i<j. collides flt rnd d i) \<and> flt (InsKey j) = Some e
        \<and> code e \<noteq> ''23505''"
    then have "\<forall>i\<in>set [0..<j]. collides flt rnd d i" by simp
    from attempts_prefix [OF this, of now ?dh ?md ?st "j # [Suc j..<5]"] h
    obtain d' where d': "same_rows d' d"
      "generate_attempts flt rnd now ?dh ?md ?st [0..<5] d
         = generate_attempts flt rnd now ?dh ?md ?st (j # [Suc j..<5]) d'"
      by (auto simp: rounds_split [of j])
    from h have "generate_attempts flt rnd now ?dh ?md ?st (j # [Suc j..<5]) d' = (InternalError, d')"
      by simp
    with d' show "fst (generateKey_route flt rnd now req d) = InternalError"
      and "same_rows (snd (generateKey_route flt rnd now req d)) d"
      by (simp_all add: route)
    show "http_status InternalError = 500"
      by (simp add: InternalError_def fail_reply_def json_reply_def)
  }
qed

theorem generation_retries_then_500_witness:
  "0 < requested_duration ex_gen
   \<and> fst (generateKey_route no_faults ex_rnd 10 ex_gen ex_db) = GenerationFailed
   \<and> other_error (InsKey 0) = Some (PgError ''08006'')
   \<and> fst (generateKey_route other_error ex_rnd 10 ex_gen ex_db) = InternalError
   \<and> same_rows (snd (generateKey_route other_error ex_rnd 10 ex_gen ex_db)) ex_db"
proof -
  have p: "0 < requested_duration ex_gen" by (simp add: requested_duration_def ex_gen_def)
  have a: "\<forall>i<5. collides no_faults ex_rnd ex_db i" by (simp add: ex_always_collides)
  have z: "(0::nat) < 5" "\<forall>i<(0::nat). collides other_error ex_rnd ex_db i"
      "other_error (InsKey 0) = Some (PgError ''08006'')" "code (PgError ''08006'') \<noteq> ''23505''"
    by (simp_all add: other_error_def)
  note i1 = generation_retries_then_500 [where req = ex_gen and flt = no_faults and rnd = ex_rnd
      and d = ex_db and now = 10 and j = 0 and e = "PgError ''08006''"]
  note i2 = generation_retries_then_500 [where req = ex_gen and flt = other_error and rnd = ex_rnd
      and d = ex_db and now = 10 and j = 0 and e = "PgError ''08006''"]
  from i1 p a have p1: "fst (generateKey_route no_faults ex_rnd 10 ex_gen ex_db) = GenerationFailed"
    by blast
  from i2 p z
  have p2: "fst (generateKey_route other_error ex_rnd 10 ex_gen ex_db) = InternalError
            \<and> same_rows (snd (generateKey_route other_error ex_rnd 10 ex_gen ex_db)) ex_db"
    by blast
  from p p1 p2 z(3) show ?thesis by blast
qed

section \<open>A uniqueness violation inside /activateKey\<close>

text \<open>
  Two requests for the same device pass their checks on the same store; the first commits;
  the INSERT of the second then meets UNIQUE (key_id, device_id). The second request is
  answered 409, while a request arriving after the first commit is answered 200.
\<close>

theorem unique_violation_counterexample:
  "fst (activateKey_checks no_faults 10 (ex_req ''device-A'') ex_db) = Inr (ex_key, ''device-A'', 0)
   \<and> insert_activation 20 (id_col ex_key) ''device-A'' (ip (ex_req ''device-A'')) ex_db_activated
        = Inl (PgError ''23505'')
   \<and> activateKey_commit no_faults 20 (ex_req ''device-A'') ex_key ''device-A'' 0 ex_db_activated
        = (DeviceConflict, ex_db_activated)
   \<and> http_status DeviceConflict = 409
   \<and> \<not> success_reply DeviceConflict
   \<and> fst (activateKey no_faults 20 (ex_req ''device-A'') ex_db_activated)
        = AlreadyActivated (ex_key\<lparr>used_devices := 1\<rparr>)
   \<and> http_status (AlreadyActivated (ex_key\<lparr>used_devices := 1\<rparr>)) = 200
   \<and> success_reply (AlreadyActivated (ex_key\<lparr>used_devices := 1\<rparr>))"
  by code_simp

text \<open>
  C4 (as the code has it). When the INSERT of the activation row meets the uniqueness
  constraint on (key, device), with the connection, BEGIN and ROLLBACK going through,
  the transaction is rolled back, nothing is written (no row, no counter change, no log
  entry) and the call answers HTTP 409 \<open>Device already activated with this key\<close> with
  \<open>success: false\<close>; it does not take the success reply of the already-activated path.
\<close>

theorem unique_violation_answers_409:
  "flt Connect = None \<and> flt Begin = None \<and> flt InsAct = None \<and> flt Rollback = None
   \<and> key_exists (id_col keyData) d \<and> select_activation (id_col keyData) dev d \<noteq> []
   \<longrightarrow> insert_activation now (id_col keyData) dev (ip req) d = Inl (PgError ''23505'')
      \<and> activateKey_commit flt now req keyData dev currentDevices d = (DeviceConflict, d)
      \<and> http_status DeviceConflict = 409 \<and> \<not> success_reply DeviceConflict"
  by (simp add: activateKey_commit_def activation_tx_def insert_activation_def
        rollback_rethrow_def activate_catch_def DeviceConflict_def fail_reply_def
        json_reply_def success_reply_def)

theorem unique_violation_answers_409_witness:
  "key_exists (id_col ex_key) ex_db_activated
   \<and> select_activation (id_col ex_key) ''device-A'' ex_db_activated \<noteq> []
   \<and> activateKey_commit no_faults 20 (ex_req ''device-A'') ex_key ''device-A'' 0 ex_db_activated
        = (DeviceConflict, ex_db_activated)
   \<and> http_status DeviceConflict = 409"
proof -
  have f: "no_faults Connect = None" "no_faults Begin = None" "no_faults InsAct = None"
      "no_faults Rollback = None" by (simp_all add: no_faults_def)
  have k: "key_exists (id_col ex_key) ex_db_activated"
      "select_activation (id_col ex_key) ''device-A'' ex_db_activated \<noteq> []" by code_simp+
  from unique_violation_answers_409 [where flt = no_faults and keyData = ex_key
      and d = ex_db_activated and dev = "''device-A''" and now = 20
      and req = "ex_req ''device-A''" and currentDevices = 0] f k
  show ?thesis by blast
qed

section \<open>Expiry writes and the stored status\<close>

text \<open>
  Each of the three expiry writes gives the same store when it is run twice, and the
  periodic sweep leaves every row alone whose status is not \<open>active\<close>.
\<close>

lemma expiry_writes_idempotent:
  "update_expired kid (update_expired kid d) = update_expired kid d"
  "cleanupExpiredKeys flt now (cleanupExpiredKeys flt now d) = cleanupExpiredKeys flt now d"
  by (simp_all add: update_expired_def cleanupExpiredKeys_def comp_def split: option.splits)

lemma sweep_touches_only_active:
  assumes "i < length (keys d)" "status (keys d ! i) \<noteq> ''active''"
  shows "keys (cleanupExpiredKeys flt now d) ! i = keys d ! i"
  using assms by (simp add: cleanupExpiredKeys_def split: option.splits)

text \<open>
  C6. The expiry UPDATE of /activateKey and /verifyKey has no condition on the current
  status: on a key stored as \<open>inactive\<close> and past \<open>expires_at\<close> both handlers leave the
  status \<open>expired\<close>, while the periodic sweep, whose UPDATE carries
  \<open>AND status = 'active'\<close>, leaves it \<open>inactive\<close>.
\<close>

theorem lazy_expiry_overwrites_inactive:
  "map status (keys ex_db_inactive) = [''inactive'']
   \<and> map status (keys (snd (activateKey no_faults 3600001 (ex_req ''device-A'') ex_db_inactive)))
        = [''expired'']
   \<and> map status (keys (snd (verifyKey no_faults 3600001 (ex_req ''device-A'') ex_db_inactive)))
        = [''expired'']
   \<and> map status (keys (cleanupExpiredKeys no_faults 3600001 ex_db_inactive)) = [''inactive'']"
  by code_simp

end
